theory Spec2Isabelle
  imports Main "HOL-Library.Multiset"
begin

section \<open>The operation\<close>

text \<open>
  \<^verbatim>\<open>FUNCTOR_T\<close> is a function object with two call operators: \<^verbatim>\<open>op()\<close> returns the
  neutral element and \<^verbatim>\<open>op(a, b)\<close> combines two values.
\<close>

record 'a functor_t =
  identity :: 'a
  combine :: "'a \<Rightarrow> 'a \<Rightarrow> 'a"

text \<open>\<^verbatim>\<open>struct add\<close> of gutter_base.h, at a type of unbounded integers.\<close>

definition add :: "int functor_t" where
  "add = \<lparr>identity = 0, combine = (\<lambda>arg1 arg2. arg1 + arg2)\<rparr>"

section \<open>The base class\<close>

text \<open>
  \<^verbatim>\<open>gutter_base\<close> owns \<^verbatim>\<open>heap\<close>, a pointer one cell before a block of \<^verbatim>\<open>2*_size - 1\<close>
  cells, so that the cells are \<^verbatim>\<open>heap[1]\<close> .. \<^verbatim>\<open>heap[2*_size - 1]\<close>. The block is a
  store from indices to values; an access outside the block is undefined in C++ and
  is the value \<open>None\<close> here. \<^verbatim>\<open>INDEX_T\<close> is \<^verbatim>\<open>std::size_t\<close>, modelled by \<open>nat\<close>: the
  theorems below are about index arguments within \<^verbatim>\<open>[0, _size]\<close>, where every index
  computed stays below \<^verbatim>\<open>2*_size + 1\<close> and no subtraction goes below zero.
\<close>

record 'a gutter_base =
  heap :: "nat \<Rightarrow> 'a"
  gsize :: nat
  op :: "'a functor_t"

definition in_block :: "'a gutter_base \<Rightarrow> nat \<Rightarrow> bool" where
  "in_block g i \<longleftrightarrow> 1 \<le> i \<and> i < 2 * gsize g"

definition heap_get :: "'a gutter_base \<Rightarrow> nat \<Rightarrow> 'a option" where
  "heap_get g i = (if in_block g i then Some (heap g i) else None)"

definition heap_set :: "'a gutter_base \<Rightarrow> nat \<Rightarrow> 'a \<Rightarrow> 'a gutter_base option" where
  "heap_set g i v = (if in_block g i then Some (g\<lparr>heap := (heap g)(i := v)\<rparr>) else None)"

definition index_parent :: "nat \<Rightarrow> nat" where
  "index_parent n = n div 2"

definition index_lbranch :: "nat \<Rightarrow> nat" where
  "index_lbranch n = 2 * n"

definition index_rbranch :: "nat \<Rightarrow> nat" where
  "index_rbranch n = 2 * n + 1"

definition index_islbranch :: "nat \<Rightarrow> bool" where
  "index_islbranch index \<longleftrightarrow> \<not> (index mod 2 \<noteq> 0)"

text \<open>
  Modelled from the spec: \<^verbatim>\<open>msb\<close> of BitTwiddles.h, which is not among the sources.
  The spec calls it the bit-scan primitive \<^verbatim>\<open>highestPowerOfTwoLE(v)\<close>, the highest
  power of two that is at most \<open>v\<close>.
\<close>

fun msb :: "nat \<Rightarrow> nat" where
  "msb v = (if v \<le> 1 then v else 2 * msb (v div 2))"

declare msb.simps [simp del]

definition index_first_of_row :: "nat \<Rightarrow> nat" where
  "index_first_of_row index = msb index"

definition index_nth_leaf :: "nat \<Rightarrow> nat \<Rightarrow> nat" where
  "index_nth_leaf sz n =
     (let index_deepest_lvl_1st = index_first_of_row (2 * sz - 1)
      in n + index_deepest_lvl_1st - (if n + index_deepest_lvl_1st < 2 * sz then 0 else sz))"

text \<open>
  The local \<^verbatim>\<open>index_deepest_lvl_1st\<close> of \<^verbatim>\<open>index_nth_leaf\<close>: the first index of the deepest
  row of the tree.
\<close>

definition index_deepest_lvl_1st :: "nat \<Rightarrow> nat" where
  "index_deepest_lvl_1st n = index_first_of_row (2 * n - 1)"

text \<open>
  \<^verbatim>\<open>while (index_parent(index) >= row_1st) index = index_parent(index);\<close>
  does not end when \<^verbatim>\<open>row_1st\<close> is 0; \<open>None\<close> is the loop that does not end.
\<close>

partial_function (option) index_ancestor_in_row :: "nat \<Rightarrow> nat \<Rightarrow> nat option" where
  "index_ancestor_in_row index row_1st =
     (if index_parent index \<ge> row_1st then index_ancestor_in_row (index_parent index) row_1st
      else Some index)"

declare index_ancestor_in_row.simps [code]

text \<open>
  A traversal takes a function object and calls it on one index after the other. The
  function objects of the classes read and write the block through a pointer, so a
  function object is a step \<open>nat \<Rightarrow> 's \<Rightarrow> 's option\<close> on a state \<open>'s\<close> that holds
  whatever the object reads and writes; \<open>None\<close> is an access outside the block.
\<close>

text \<open>\<^verbatim>\<open>act_on_all_ancestors_leafup(index, functor)\<close>.\<close>

function act_on_all_ancestors_leafup ::
  "nat \<Rightarrow> (nat \<Rightarrow> 's \<Rightarrow> 's option) \<Rightarrow> 's \<Rightarrow> 's option" where
  "act_on_all_ancestors_leafup index functor s =
     (if index > 0 then
        (case functor index s of None \<Rightarrow> None
         | Some s' \<Rightarrow> act_on_all_ancestors_leafup (index_parent index) functor s')
      else Some s)"
  by pat_completeness auto
termination
  by (relation "measure (\<lambda>(index, functor, s). index)") (auto simp: index_parent_def)

declare act_on_all_ancestors_leafup.simps [simp del]

text \<open>\<^verbatim>\<open>for (INDEX_T i=1; i<index; i*=2) functor(index_ancestor_in_row(index,i));\<close>\<close>

partial_function (option) rootdown_loop ::
  "nat \<Rightarrow> nat \<Rightarrow> (nat \<Rightarrow> 's \<Rightarrow> 's option) \<Rightarrow> 's \<Rightarrow> 's option" where
  "rootdown_loop i index functor s =
     (if i < index then
        (case index_ancestor_in_row index i of None \<Rightarrow> None
         | Some a \<Rightarrow>
            (case functor a s of None \<Rightarrow> None
             | Some s' \<Rightarrow> rootdown_loop (i * 2) index functor s'))
      else Some s)"

declare rootdown_loop.simps [code]

definition act_on_all_ancestors_rootdown ::
  "nat \<Rightarrow> (nat \<Rightarrow> 's \<Rightarrow> 's option) \<Rightarrow> 's \<Rightarrow> 's option" where
  "act_on_all_ancestors_rootdown index functor s = rootdown_loop 1 index functor s"

definition act_on_all_ancestors ::
  "nat \<Rightarrow> (nat \<Rightarrow> 's \<Rightarrow> 's option) \<Rightarrow> 's \<Rightarrow> 's option" where
  "act_on_all_ancestors index functor s = act_on_all_ancestors_leafup index functor s"

text \<open>\<^verbatim>\<open>for (INDEX_T j=j0; j<=j1; ++j) functor(j);\<close>, the inner loop of the walks over a pair.\<close>

function act_on_row :: "nat \<Rightarrow> nat \<Rightarrow> (nat \<Rightarrow> 's \<Rightarrow> 's option) \<Rightarrow> 's \<Rightarrow> 's option" where
  "act_on_row j j1 functor s =
     (if j \<le> j1 then
        (case functor j s of None \<Rightarrow> None | Some s' \<Rightarrow> act_on_row (j + 1) j1 functor s')
      else Some s)"
  by pat_completeness auto
termination
  by (relation "measure (\<lambda>(j, j1, functor, s). j1 + 1 - j)") auto

declare act_on_row.simps [simp del]

text \<open>The \<^verbatim>\<open>while (i1 > 0)\<close> loop of \<^verbatim>\<open>act_on_all_ancestors_leafup(i1, i2, functor)\<close>.\<close>

function leafup_rows :: "nat \<Rightarrow> nat \<Rightarrow> (nat \<Rightarrow> 's \<Rightarrow> 's option) \<Rightarrow> 's \<Rightarrow> 's option" where
  "leafup_rows i1 i2 functor s =
     (if i1 > 0 then
        (case act_on_row i1 i2 functor s of None \<Rightarrow> None
         | Some s' \<Rightarrow> leafup_rows (index_parent i1) (index_parent i2) functor s')
      else Some s)"
  by pat_completeness auto
termination
  by (relation "measure (\<lambda>(i1, i2, functor, s). i1)") (auto simp: index_parent_def)

declare leafup_rows.simps [simp del]

text \<open>\<^verbatim>\<open>act_on_all_ancestors_leafup(i1, i2, functor)\<close>, the overload on a pair of indices.\<close>

definition act_on_all_ancestors_leafup2 ::
  "nat \<Rightarrow> nat \<Rightarrow> nat \<Rightarrow> (nat \<Rightarrow> 's \<Rightarrow> 's option) \<Rightarrow> 's \<Rightarrow> 's option" where
  "act_on_all_ancestors_leafup2 sz i1 i2 functor s =
     (if i1 > i2 then
        (case index_ancestor_in_row (2 * sz - 1) (index_first_of_row i1) of None \<Rightarrow> None
         | Some j1 \<Rightarrow>
            (case act_on_row i1 j1 functor s of None \<Rightarrow> None
             | Some s' \<Rightarrow> leafup_rows (index_parent i1) i2 functor s'))
      else leafup_rows i1 i2 functor s)"

text \<open>\<^verbatim>\<open>act_on_all_ancestors_rootdown(i1, i2, functor)\<close>: the loop over the rows.\<close>

partial_function (option) rootdown_rows ::
  "nat \<Rightarrow> nat \<Rightarrow> nat \<Rightarrow> nat \<Rightarrow> (nat \<Rightarrow> 's \<Rightarrow> 's option) \<Rightarrow> 's \<Rightarrow> 's option" where
  "rootdown_rows sz i i1 i2 functor s =
     (if i \<le> i1 then
        (case index_ancestor_in_row i1 i of None \<Rightarrow> None
         | Some j0 \<Rightarrow>
            (case index_ancestor_in_row (if i \<le> i2 then i2 else 2 * sz - 1) i of None \<Rightarrow> None
             | Some j1 \<Rightarrow>
                (case act_on_row j0 j1 functor s of None \<Rightarrow> None
                 | Some s' \<Rightarrow> rootdown_rows sz (i * 2) i1 i2 functor s')))
      else Some s)"

declare rootdown_rows.simps [code]

definition act_on_all_ancestors_rootdown2 ::
  "nat \<Rightarrow> nat \<Rightarrow> nat \<Rightarrow> (nat \<Rightarrow> 's \<Rightarrow> 's option) \<Rightarrow> 's \<Rightarrow> 's option" where
  "act_on_all_ancestors_rootdown2 sz i1 i2 functor s = rootdown_rows sz 1 i1 i2 functor s"

text \<open>
  The \<^verbatim>\<open>while (true)\<close> loop of \<^verbatim>\<open>act_on_min_covering_ancestors\<close>. It returns the index
  at which it breaks, with the state; the caller then calls the function object there.
\<close>

partial_function (option) min_covering_loop ::
  "nat \<Rightarrow> nat \<Rightarrow> (nat \<Rightarrow> 's \<Rightarrow> 's option) \<Rightarrow> 's \<Rightarrow> (nat \<times> 's) option" where
  "min_covering_loop i1 i2 functor s =
     (if i1 = i2 then Some (i1, s)
      else if \<not> index_islbranch i1 then
        (case functor i1 s of None \<Rightarrow> None
         | Some s1 \<Rightarrow>
            if i1 + 1 = i2 then Some (i1 + 1, s1)
            else if index_parent (i1 + 1) = i2 then Some (index_parent (i1 + 1), s1)
            else if index_islbranch i2 then
              (case functor i2 s1 of None \<Rightarrow> None
               | Some s2 \<Rightarrow>
                  if index_parent (i1 + 1) = i2 - 1 then Some (index_parent (i1 + 1), s2)
                  else min_covering_loop (index_parent (i1 + 1)) (index_parent (i2 - 1)) functor s2)
            else min_covering_loop (index_parent (i1 + 1)) (index_parent i2) functor s1)
      else if index_parent i1 = i2 then Some (index_parent i1, s)
      else if index_islbranch i2 then
        (case functor i2 s of None \<Rightarrow> None
         | Some s2 \<Rightarrow>
            if index_parent i1 = i2 - 1 then Some (index_parent i1, s2)
            else min_covering_loop (index_parent i1) (index_parent (i2 - 1)) functor s2)
      else min_covering_loop (index_parent i1) (index_parent i2) functor s)"

declare min_covering_loop.simps [code]

definition act_on_min_covering_ancestors ::
  "nat \<Rightarrow> nat \<Rightarrow> nat \<Rightarrow> (nat \<Rightarrow> 's \<Rightarrow> 's option) \<Rightarrow> 's \<Rightarrow> 's option" where
  "act_on_min_covering_ancestors sz i1 i2 functor s =
     (if i1 \<ge> i2 then Some s
      else
        (case min_covering_loop (index_nth_leaf sz i1) (index_nth_leaf sz (i2 - 1)) functor s of
           None \<Rightarrow> None
         | Some (i, s') \<Rightarrow> functor i s'))"

text \<open>
  The \<^verbatim>\<open>do ... while (i != i2)\<close> loop of \<^verbatim>\<open>act_on_leaves_in_order\<close>, entered with
  \<^verbatim>\<open>i2\<close> already incremented.
\<close>

partial_function (option) leaves_loop ::
  "nat \<Rightarrow> nat \<Rightarrow> nat \<Rightarrow> (nat \<Rightarrow> 's \<Rightarrow> 's option) \<Rightarrow> 's \<Rightarrow> 's option" where
  "leaves_loop sz i i2 functor s =
     (case functor (if i = 2 * sz then index_parent i else i) s of None \<Rightarrow> None
      | Some s' \<Rightarrow>
         if (if i = 2 * sz then index_parent i else i) + 1 \<noteq> i2
         then leaves_loop sz ((if i = 2 * sz then index_parent i else i) + 1) i2 functor s'
         else Some s')"

declare leaves_loop.simps [code]

definition act_on_leaves_in_order ::
  "nat \<Rightarrow> nat \<Rightarrow> nat \<Rightarrow> (nat \<Rightarrow> 's \<Rightarrow> 's option) \<Rightarrow> 's \<Rightarrow> 's option" where
  "act_on_leaves_in_order sz i1 i2 functor s = leaves_loop sz i1 (i2 + 1) functor s"

text \<open>
  \<^verbatim>\<open>gutter_base(n, functor)\<close> allocates \<^verbatim>\<open>new RESULT_T[2*n-1]\<close> and initialises no
  cell: \<open>mem\<close> is what the block holds then. With \<^verbatim>\<open>n == 0\<close> the length
  \<^verbatim>\<open>2*n-1\<close> wraps to the largest \<^verbatim>\<open>size_t\<close> and the allocation fails.
\<close>

definition gutter_base_new :: "(nat \<Rightarrow> 'a) \<Rightarrow> nat \<Rightarrow> 'a functor_t \<Rightarrow> 'a gutter_base option" where
  "gutter_base_new mem n functor =
     (if n = 0 then None else Some \<lparr>heap = mem, gsize = n, op = functor\<rparr>)"

text \<open>\<^verbatim>\<open>std::fill(this->heap+1, this->heap+(2*this->_size), this->op())\<close>.\<close>

definition fill :: "'a gutter_base \<Rightarrow> 'a gutter_base" where
  "fill g = g\<lparr>heap := (\<lambda>i. if in_block g i then identity (op g) else heap g i)\<rparr>"

text \<open>
  \<^verbatim>\<open>functor_get\<close> holds \<^verbatim>\<open>res\<close>, which starts as \<^verbatim>\<open>op()\<close>, and reads the block: the state
  of the walk is \<^verbatim>\<open>res\<close>.
\<close>

definition functor_get :: "'a gutter_base \<Rightarrow> nat \<Rightarrow> 'a \<Rightarrow> 'a option" where
  "functor_get g in' res =
     (case heap_get g in' of None \<Rightarrow> None | Some v \<Rightarrow> Some (combine (op g) res v))"

text \<open>\<^verbatim>\<open>functor_apply\<close> holds \<^verbatim>\<open>input\<close> and writes the block: the state is the object.\<close>

definition functor_apply :: "'a \<Rightarrow> nat \<Rightarrow> 'a gutter_base \<Rightarrow> 'a gutter_base option" where
  "functor_apply input out g =
     (case heap_get g out of None \<Rightarrow> None
      | Some v \<Rightarrow> heap_set g out (combine (op g) v input))"

text \<open>
  \<^verbatim>\<open>functor_get_to_iter\<close> writes through an output iterator and advances it: the
  state is the list of the values written so far.
\<close>

definition functor_get_to_iter :: "'a gutter_base \<Rightarrow> nat \<Rightarrow> 'a list \<Rightarrow> 'a list option" where
  "functor_get_to_iter g index iter =
     (case heap_get g index of None \<Rightarrow> None | Some v \<Rightarrow> Some (iter @ [v]))"

text \<open>
  \<^verbatim>\<open>functor_set_from_iter\<close> reads through an input iterator and advances it: the state
  is the object with the values still to be read. Reading beyond the last value is
  \<open>None\<close>.
\<close>

definition functor_set_from_iter ::
  "nat \<Rightarrow> 'a gutter_base \<times> 'a list \<Rightarrow> ('a gutter_base \<times> 'a list) option" where
  "functor_set_from_iter index s =
     (case s of (g, iter) \<Rightarrow>
        (case iter of [] \<Rightarrow> None
         | x # iter' \<Rightarrow>
            (case heap_set g index x of None \<Rightarrow> None | Some g' \<Rightarrow> Some (g', iter'))))"

section \<open>The class \<^verbatim>\<open>gutter_retrieve\<close>: point update, range query\<close>

definition functor_update_parent :: "nat \<Rightarrow> 'a gutter_base \<Rightarrow> 'a gutter_base option" where
  "functor_update_parent index g =
     (case heap_get g (index_lbranch index) of None \<Rightarrow> None
      | Some l \<Rightarrow>
         (case heap_get g (index_rbranch index) of None \<Rightarrow> None
          | Some r \<Rightarrow> heap_set g index (combine (op g) l r)))"

definition gutter_retrieve_new :: "(nat \<Rightarrow> 'a) \<Rightarrow> nat \<Rightarrow> 'a functor_t \<Rightarrow> 'a gutter_base option" where
  "gutter_retrieve_new mem n functor =
     (case gutter_base_new mem n functor of None \<Rightarrow> None | Some g \<Rightarrow> Some (fill g))"

text \<open>\<^verbatim>\<open>operator[]\<close>.\<close>

definition gutter_retrieve_subscript :: "'a gutter_base \<Rightarrow> nat \<Rightarrow> 'a option" where
  "gutter_retrieve_subscript g leaf_no = heap_get g (index_nth_leaf (gsize g) leaf_no)"

definition gutter_retrieve_assign :: "'a gutter_base \<Rightarrow> nat \<Rightarrow> 'a \<Rightarrow> 'a gutter_base option" where
  "gutter_retrieve_assign g leaf_no x =
     (case heap_set g (index_nth_leaf (gsize g) leaf_no) x of None \<Rightarrow> None
      | Some g' \<Rightarrow>
         act_on_all_ancestors_leafup (index_parent (index_nth_leaf (gsize g) leaf_no))
           functor_update_parent g')"

definition gutter_retrieve_apply :: "'a gutter_base \<Rightarrow> nat \<Rightarrow> 'a \<Rightarrow> 'a gutter_base option" where
  "gutter_retrieve_apply g leaf_no x =
     (case heap_get g (index_nth_leaf (gsize g) leaf_no) of None \<Rightarrow> None
      | Some v \<Rightarrow>
         (case heap_set g (index_nth_leaf (gsize g) leaf_no) (combine (op g) v x) of None \<Rightarrow> None
          | Some g' \<Rightarrow>
             act_on_all_ancestors_leafup (index_parent (index_nth_leaf (gsize g) leaf_no))
               functor_update_parent g'))"

definition gutter_retrieve_accumulate :: "'a gutter_base \<Rightarrow> nat \<Rightarrow> nat \<Rightarrow> 'a option" where
  "gutter_retrieve_accumulate g leaf1 leaf2 =
     act_on_min_covering_ancestors (gsize g) leaf1 leaf2 (functor_get g) (identity (op g))"

text \<open>
  \<^verbatim>\<open>assign(i1, i2, input)\<close>, the overload on a range. It returns the iterator behind
  the values read, here with the object.
\<close>

definition gutter_retrieve_assign_range ::
  "'a gutter_base \<Rightarrow> nat \<Rightarrow> nat \<Rightarrow> 'a list \<Rightarrow> ('a gutter_base \<times> 'a list) option" where
  "gutter_retrieve_assign_range g i1 i2 input =
     (if i1 > i2 then Some (g, input)
      else if i1 = i2 then Some (g, input)
      else
        (case act_on_leaves_in_order (gsize g)
                (index_nth_leaf (gsize g) i1) (index_nth_leaf (gsize g) (i2 - 1))
                functor_set_from_iter (g, input) of
           None \<Rightarrow> None
         | Some (g', input') \<Rightarrow>
            (case act_on_all_ancestors_leafup2 (gsize g)
                    (index_parent (index_nth_leaf (gsize g) i1))
                    (index_parent (index_nth_leaf (gsize g) (i2 - 1)))
                    functor_update_parent g' of
               None \<Rightarrow> None
             | Some g'' \<Rightarrow> Some (g'', input'))))"

text \<open>
  \<^verbatim>\<open>gutter_retrieve(std::initializer_list<RESULT_T> source, FUNCTOR_T functor)\<close>: the
  base constructor, with no fill, then the assignment of the whole range.
\<close>

definition gutter_retrieve_of_list ::
  "(nat \<Rightarrow> 'a) \<Rightarrow> 'a list \<Rightarrow> 'a functor_t \<Rightarrow> 'a gutter_base option" where
  "gutter_retrieve_of_list mem source functor =
     (case gutter_base_new mem (length source) functor of None \<Rightarrow> None
      | Some g \<Rightarrow>
         (case gutter_retrieve_assign_range g 0 (length source) source of None \<Rightarrow> None
          | Some (g', input') \<Rightarrow> Some g'))"

section \<open>The class \<^verbatim>\<open>gutter_apply\<close>: range update, point query\<close>

text \<open>The member \<^verbatim>\<open>consolidate_to_children(INDEX_T index)\<close>.\<close>

definition consolidate_to_children :: "nat \<Rightarrow> 'a gutter_base \<Rightarrow> 'a gutter_base option" where
  "consolidate_to_children index g =
     (case heap_get g (index_lbranch index) of None \<Rightarrow> None
      | Some l \<Rightarrow>
         (case heap_get g index of None \<Rightarrow> None
          | Some v \<Rightarrow>
             (case heap_set g (index_lbranch index) (combine (op g) l v) of None \<Rightarrow> None
              | Some g1 \<Rightarrow>
                 (case heap_get g1 (index_rbranch index) of None \<Rightarrow> None
                  | Some r \<Rightarrow>
                     (case heap_get g1 index of None \<Rightarrow> None
                      | Some v1 \<Rightarrow>
                         (case heap_set g1 (index_rbranch index) (combine (op g1) r v1) of
                            None \<Rightarrow> None
                          | Some g2 \<Rightarrow> heap_set g2 index (identity (op g2))))))))"

text \<open>
  The function object \<^verbatim>\<open>functor_consolidate\<close>, which \<^verbatim>\<open>assign\<close> and \<^verbatim>\<open>copy\<close> hand to the walks
  from the root down. The body of its \<^verbatim>\<open>operator()(INDEX_T in)\<close> reads and writes \<^verbatim>\<open>binarray\<close>
  at \<^verbatim>\<open>index\<close>, a name that neither the function object nor a scope around it declares, and
  it does not use its parameter \<^verbatim>\<open>in\<close>. So a call determines no cell to read or to write: it
  has no result, at every index and in every state.
\<close>

definition functor_consolidate :: "nat \<Rightarrow> 'a gutter_base \<Rightarrow> 'a gutter_base option" where
  "functor_consolidate in' g = None"

definition gutter_apply_new :: "(nat \<Rightarrow> 'a) \<Rightarrow> nat \<Rightarrow> 'a functor_t \<Rightarrow> 'a gutter_base option" where
  "gutter_apply_new mem n functor =
     (case gutter_base_new mem n functor of None \<Rightarrow> None | Some g \<Rightarrow> Some (fill g))"

definition gutter_apply_apply :: "'a gutter_base \<Rightarrow> nat \<Rightarrow> 'a \<Rightarrow> 'a gutter_base option" where
  "gutter_apply_apply g leaf_no x =
     (case heap_get g (index_nth_leaf (gsize g) leaf_no) of None \<Rightarrow> None
      | Some v \<Rightarrow> heap_set g (index_nth_leaf (gsize g) leaf_no) (combine (op g) v x))"

definition gutter_apply_assign :: "'a gutter_base \<Rightarrow> nat \<Rightarrow> 'a \<Rightarrow> 'a gutter_base option" where
  "gutter_apply_assign g leaf_no x =
     (case act_on_all_ancestors_rootdown (index_parent (index_nth_leaf (gsize g) leaf_no))
             functor_consolidate g of
        None \<Rightarrow> None
      | Some g' \<Rightarrow>
         (case heap_get g' (index_nth_leaf (gsize g) leaf_no) of None \<Rightarrow> None
          | Some v \<Rightarrow> heap_set g' (index_nth_leaf (gsize g) leaf_no) (combine (op g') v x)))"

text \<open>\<^verbatim>\<open>operator[]\<close>.\<close>

definition gutter_apply_subscript :: "'a gutter_base \<Rightarrow> nat \<Rightarrow> 'a option" where
  "gutter_apply_subscript g leaf_no =
     act_on_all_ancestors (index_nth_leaf (gsize g) leaf_no) (functor_get g) (identity (op g))"

text \<open>\<^verbatim>\<open>apply(i1, i2, x)\<close>, the overload on a range.\<close>

definition gutter_apply_apply_range ::
  "'a gutter_base \<Rightarrow> nat \<Rightarrow> nat \<Rightarrow> 'a \<Rightarrow> 'a gutter_base option" where
  "gutter_apply_apply_range g i1 i2 x =
     act_on_min_covering_ancestors (gsize g) i1 i2 (functor_apply x) g"

text \<open>
  \<^verbatim>\<open>copy(i1, i2, output)\<close> returns the iterator behind the values written, here the
  values written, with the object.
\<close>

definition gutter_apply_copy ::
  "'a gutter_base \<Rightarrow> nat \<Rightarrow> nat \<Rightarrow> 'a list \<Rightarrow> ('a gutter_base \<times> 'a list) option" where
  "gutter_apply_copy g i1 i2 output =
     (if i1 > i2 then Some (g, output)
      else if i1 = i2 then Some (g, output)
      else
        (case act_on_all_ancestors_rootdown2 (gsize g)
                (index_parent (index_nth_leaf (gsize g) i1))
                (index_parent (index_nth_leaf (gsize g) (i2 - 1)))
                functor_consolidate g of
           None \<Rightarrow> None
         | Some g' \<Rightarrow>
            (case act_on_leaves_in_order (gsize g)
                    (index_nth_leaf (gsize g) i1) (index_nth_leaf (gsize g) (i2 - 1))
                    (functor_get_to_iter g') output of
               None \<Rightarrow> None
             | Some output' \<Rightarrow> Some (g', output'))))"

text \<open>
  The rest of the definitions are not in the sources: they describe the walks.
  \<open>visit functor is s\<close> calls the function object on the indices of a list, in order.
\<close>

fun visit :: "(nat \<Rightarrow> 's \<Rightarrow> 's option) \<Rightarrow> nat list \<Rightarrow> 's \<Rightarrow> 's option" where
  "visit functor [] s = Some s"
| "visit functor (i # is) s =
     (case functor i s of None \<Rightarrow> None | Some s' \<Rightarrow> visit functor is s')"

text \<open>
  The indices on which \<^verbatim>\<open>act_on_min_covering_ancestors\<close> calls its function object when
  its loop starts at \<open>i1\<close> and \<open>i2\<close>, in the order of the calls, the one after the
  loop included. (At \<open>i2 = 0\<close> the list is cut: the loop never gets there from a range
  of leaves.)
\<close>

function cover_nodes :: "nat \<Rightarrow> nat \<Rightarrow> nat list" where
  "cover_nodes i1 i2 =
     (if i1 = i2 \<or> i2 = 0 then [i1]
      else if \<not> index_islbranch i1 then
        i1 # (if i1 + 1 = i2 then [i1 + 1]
              else if index_parent (i1 + 1) = i2 then [index_parent (i1 + 1)]
              else if index_islbranch i2 then
                i2 # (if index_parent (i1 + 1) = i2 - 1 then [index_parent (i1 + 1)]
                      else cover_nodes (index_parent (i1 + 1)) (index_parent (i2 - 1)))
              else cover_nodes (index_parent (i1 + 1)) (index_parent i2))
      else if index_parent i1 = i2 then [index_parent i1]
      else if index_islbranch i2 then
        i2 # (if index_parent i1 = i2 - 1 then [index_parent i1]
              else cover_nodes (index_parent i1) (index_parent (i2 - 1)))
      else cover_nodes (index_parent i1) (index_parent i2))"
  by pat_completeness auto
termination
  by (relation "measure (\<lambda>(i1, i2). i2)") (auto simp: index_parent_def)

declare cover_nodes.simps [simp del]

text \<open>
  The leaf cells below the node \<open>v\<close> of a tree of \<open>n\<close> leaves, from left to right. An
  index from \<open>2n\<close> on is no cell of the block: it stands where a child of a leaf cell
  would be, the left one for the leaf cell itself and the right one for nothing.
\<close>

function leaf_cells :: "nat \<Rightarrow> nat \<Rightarrow> nat list" where
  "leaf_cells n v =
     (if v = 0 then []
      else if v < n then leaf_cells n (index_lbranch v) @ leaf_cells n (index_rbranch v)
      else if v < 2 * n then [v]
      else if index_islbranch v then [index_parent v]
      else [])"
  by pat_completeness auto
termination
  by (relation "measure (\<lambda>(n, v). n - v)") (auto simp: index_lbranch_def index_rbranch_def)

declare leaf_cells.simps [simp del]

text \<open>The leaf cells below the nodes of a list, as a multiset.\<close>

definition cells_of :: "nat \<Rightarrow> nat list \<Rightarrow> nat multiset" where
  "cells_of n ns = mset (concat (map (leaf_cells n) ns))"

text \<open>The left index one row below the right index.\<close>

text \<open>The nodes that \<^verbatim>\<open>act_on_min_covering_ancestors\<close> visits for the leaves \<open>i1, ..., i2 - 1\<close>.\<close>

definition covering_nodes :: "nat \<Rightarrow> nat \<Rightarrow> nat \<Rightarrow> nat list" where
  "covering_nodes n i1 i2 = cover_nodes (index_nth_leaf n i1) (index_nth_leaf n (i2 - 1))"

text \<open>
  The operations the classes are meant for: \<^verbatim>\<open>op(a, b)\<close> associative, with \<^verbatim>\<open>op()\<close> neutral
  on both sides.
\<close>

definition monoid_op :: "'a functor_t \<Rightarrow> bool" where
  "monoid_op f \<longleftrightarrow>
     (\<forall>a b c. combine f (combine f a b) c = combine f a (combine f b c))
     \<and> (\<forall>a. combine f a (identity f) = a) \<and> (\<forall>a. combine f (identity f) a = a)"

definition commutative_op :: "'a functor_t \<Rightarrow> bool" where
  "commutative_op f \<longleftrightarrow> (\<forall>a b. combine f a b = combine f b a)"

text \<open>
  The cells from the index \<open>q\<close> up to the root, combined in this order: what a walk
  from \<open>q\<close> to the root with \<^verbatim>\<open>functor_get\<close> collects.
\<close>

function chain_value :: "'a gutter_base \<Rightarrow> nat \<Rightarrow> 'a" where
  "chain_value g q =
     (if q = 0 then identity (op g)
      else combine (op g) (heap g q) (chain_value g (index_parent q)))"
  by pat_completeness auto
termination
  by (relation "measure (\<lambda>(g, q). q)") (auto simp: index_parent_def)

declare chain_value.simps [simp del]

text \<open>\<open>on_path v q\<close>: the index \<open>v\<close> is \<open>q\<close> or one of the indices above \<open>q\<close>, up to the root.\<close>

function on_path :: "nat \<Rightarrow> nat \<Rightarrow> bool" where
  "on_path v q = (if q = 0 then False else q = v \<or> on_path v (index_parent q))"
  by pat_completeness auto
termination
  by (relation "measure (\<lambda>(v, q). q)") (auto simp: index_parent_def)

declare on_path.simps [simp del]

text \<open>A sequence of calls of \<^verbatim>\<open>apply(i1, i2, x)\<close>, in order.\<close>

fun apply_ranges :: "'a gutter_base \<Rightarrow> (nat \<times> nat \<times> 'a) list \<Rightarrow> 'a gutter_base option" where
  "apply_ranges g [] = Some g"
| "apply_ranges g ((i1, i2, x) # calls) =
     (case gutter_apply_apply_range g i1 i2 x of None \<Rightarrow> None
      | Some g' \<Rightarrow> apply_ranges g' calls)"

text \<open>The values of the calls whose interval contains the leaf \<open>i\<close>, in the order of the calls.\<close>

definition values_at :: "(nat \<times> nat \<times> 'a) list \<Rightarrow> nat \<Rightarrow> 'a list" where
  "values_at calls i = map (\<lambda>(i1, i2, x). x) (filter (\<lambda>(i1, i2, x). i1 \<le> i \<and> i < i2) calls)"

text \<open>A list of characters with concatenation: associative, with the empty list neutral, not commutative.\<close>

definition concat_op :: "string functor_t" where
  "concat_op = \<lparr>identity = [], combine = (\<lambda>arg1 arg2. arg1 @ arg2)\<rparr>"

text \<open>The invariant of \<^verbatim>\<open>gutter_retrieve\<close>: every cell with children holds the two children combined.\<close>

definition node_ok :: "'a gutter_base \<Rightarrow> nat \<Rightarrow> bool" where
  "node_ok g j \<longleftrightarrow>
     heap g j = combine (op g) (heap g (index_lbranch j)) (heap g (index_rbranch j))"

definition consistent :: "'a gutter_base \<Rightarrow> bool" where
  "consistent g \<longleftrightarrow> (\<forall>j. 1 \<le> j \<and> j < gsize g \<longrightarrow> node_ok g j)"

text \<open>
  The nodes that the \<^verbatim>\<open>while (i1 > 0)\<close> loop of the walk over a pair visits from \<open>i1\<close> and
  \<open>i2\<close> on: the nodes between the two in their row, and so on in each row above.
\<close>

function in_rows_up :: "nat \<Rightarrow> nat \<Rightarrow> nat \<Rightarrow> bool" where
  "in_rows_up i1 i2 j =
     (if i1 > 0 then (i1 \<le> j \<and> j \<le> i2) \<or> in_rows_up (index_parent i1) (index_parent i2) j
      else False)"
  by pat_completeness auto
termination
  by (relation "measure (\<lambda>(i1, i2, j). i1)") (auto simp: index_parent_def)

declare in_rows_up.simps [simp del]

text \<open>A call of \<^verbatim>\<open>assign(leaf_no, x)\<close> or of \<^verbatim>\<open>apply(leaf_no, x)\<close>, and a sequence of such calls.\<close>

datatype 'a point_call = Assign nat 'a | Apply nat 'a

fun run_call :: "'a gutter_base \<Rightarrow> 'a point_call \<Rightarrow> 'a gutter_base option" where
  "run_call g (Assign leaf_no x) = gutter_retrieve_assign g leaf_no x"
| "run_call g (Apply leaf_no x) = gutter_retrieve_apply g leaf_no x"

fun run_calls :: "'a gutter_base \<Rightarrow> 'a point_call list \<Rightarrow> 'a gutter_base option" where
  "run_calls g [] = Some g"
| "run_calls g (c # calls) =
     (case run_call g c of None \<Rightarrow> None | Some g' \<Rightarrow> run_calls g' calls)"

section \<open>Leaf addressing\<close>

lemma msb_pow2: "1 \<le> v \<Longrightarrow> \<exists>k. msb v = 2 ^ k"
proof (induction v rule: msb.induct)
  case (1 v)
  show ?case
  proof (cases "v \<le> 1")
    case True
    with "1.prems" have "v = 1" by simp
    then have "msb v = 2 ^ 0" by (simp add: msb.simps)
    then show ?thesis by blast
  next
    case False
    then have "1 \<le> v div 2" by simp
    with "1.IH" False obtain k where "msb (v div 2) = 2 ^ k" by blast
    with False have "msb v = 2 ^ Suc k" by (simp add: msb.simps)
    then show ?thesis by blast
  qed
qed

lemma msb_le: "msb v \<le> v"
proof (induction v rule: msb.induct)
  case (1 v)
  show ?case
  proof (cases "v \<le> 1")
    case True
    then show ?thesis by (simp add: msb.simps)
  next
    case False
    with "1.IH" have "msb (v div 2) \<le> v div 2" by simp
    with False show ?thesis by (simp add: msb.simps)
  qed
qed

lemma msb_gt: "1 \<le> v \<Longrightarrow> v < 2 * msb v"
proof (induction v rule: msb.induct)
  case (1 v)
  show ?case
  proof (cases "v \<le> 1")
    case True
    with "1.prems" show ?thesis by (simp add: msb.simps)
  next
    case False
    with "1.IH" have "v div 2 < 2 * msb (v div 2)" by simp
    with False show ?thesis by (simp add: msb.simps)
  qed
qed

lemma index_deepest_lvl_1st_bounds: "1 \<le> n \<Longrightarrow> n \<le> index_deepest_lvl_1st n \<and> index_deepest_lvl_1st n < 2 * n"
  using msb_le [of "2 * n - 1"] msb_gt [of "2 * n - 1"]
  unfolding index_deepest_lvl_1st_def index_first_of_row_def by linarith

lemma index_nth_leaf_eq:
  "index_nth_leaf n k = (if k + index_deepest_lvl_1st n < 2 * n then k + index_deepest_lvl_1st n else k + index_deepest_lvl_1st n - n)"
  by (simp add: index_nth_leaf_def index_deepest_lvl_1st_def Let_def)

lemma index_nth_leaf_range:
  "1 \<le> n \<Longrightarrow> k < n \<Longrightarrow> n \<le> index_nth_leaf n k \<and> index_nth_leaf n k < 2 * n"
  using index_deepest_lvl_1st_bounds [of n] unfolding index_nth_leaf_eq by auto

lemma index_nth_leaf_inj:
  "1 \<le> n \<Longrightarrow> k < n \<Longrightarrow> k' < n \<Longrightarrow> index_nth_leaf n k = index_nth_leaf n k' \<Longrightarrow> k = k'"
  using index_deepest_lvl_1st_bounds [of n] by (simp add: index_nth_leaf_eq split: if_splits)

lemma index_nth_leaf_surj:
  assumes "1 \<le> n" "n \<le> j" "j < 2 * n"
  shows "\<exists>k<n. index_nth_leaf n k = j"
proof (cases "index_deepest_lvl_1st n \<le> j")
  case True
  with assms index_deepest_lvl_1st_bounds [of n] have "j - index_deepest_lvl_1st n < n \<and> index_nth_leaf n (j - index_deepest_lvl_1st n) = j"
    by (simp add: index_nth_leaf_eq)
  then show ?thesis by blast
next
  case False
  with assms index_deepest_lvl_1st_bounds [of n] have "j + n - index_deepest_lvl_1st n < n \<and> index_nth_leaf n (j + n - index_deepest_lvl_1st n) = j"
    by (simp add: index_nth_leaf_eq)
  then show ?thesis by blast
qed

text \<open>
  C4: for every \<open>n \<ge> 1\<close>, with \<open>D\<close> the highest power of two that is at most
  \<open>2n - 1\<close>, \<^verbatim>\<open>index_nth_leaf\<close> maps the leaf \<open>k < n\<close> to the cell \<open>k + D\<close>, reduced by
  \<open>n\<close> when \<open>k + D \<ge> 2n\<close>. The mapping is injective on the leaves, its image is exactly
  the set of the cells of the block with no child in the block, and every other cell
  of the block has its two children, distinct, in the block.
\<close>

theorem leaf_addressing:
  assumes "1 \<le> gsize g"
  shows "(\<exists>e. index_deepest_lvl_1st (gsize g) = 2 ^ e) \<and> index_deepest_lvl_1st (gsize g) \<le> 2 * gsize g - 1
      \<and> 2 * gsize g - 1 < 2 * index_deepest_lvl_1st (gsize g)
    \<and> (\<forall>k<gsize g. index_nth_leaf (gsize g) k =
          (if k + index_deepest_lvl_1st (gsize g) \<ge> 2 * gsize g then k + index_deepest_lvl_1st (gsize g) - gsize g
           else k + index_deepest_lvl_1st (gsize g)))
    \<and> inj_on (index_nth_leaf (gsize g)) {k. k < gsize g}
    \<and> index_nth_leaf (gsize g) ` {k. k < gsize g} = {j. in_block g j \<and> \<not> in_block g (index_lbranch j) \<and> \<not> in_block g (index_rbranch j)}
    \<and> (\<forall>j. in_block g j \<and> j \<notin> index_nth_leaf (gsize g) ` {k. k < gsize g}
          \<longrightarrow> in_block g (index_lbranch j) \<and> in_block g (index_rbranch j)
            \<and> index_lbranch j \<noteq> index_rbranch j
            \<and> index_parent (index_lbranch j) = j \<and> index_parent (index_rbranch j) = j)"
proof -
  let ?n = "gsize g"
  have img: "index_nth_leaf ?n ` {k. k < ?n} = {j. ?n \<le> j \<and> j < 2 * ?n}"
    using index_nth_leaf_range [OF assms] index_nth_leaf_surj [OF assms] by auto
  have p: "\<exists>e. index_deepest_lvl_1st ?n = 2 ^ e"
    using msb_pow2 [of "2 * ?n - 1"] assms by (simp add: index_deepest_lvl_1st_def index_first_of_row_def)
  have b: "index_deepest_lvl_1st ?n \<le> 2 * ?n - 1 \<and> 2 * ?n - 1 < 2 * index_deepest_lvl_1st ?n"
    using msb_le [of "2 * ?n - 1"] msb_gt [of "2 * ?n - 1"] assms by (simp add: index_deepest_lvl_1st_def index_first_of_row_def)
  have f: "\<forall>k<?n. index_nth_leaf ?n k =
          (if k + index_deepest_lvl_1st ?n \<ge> 2 * ?n then k + index_deepest_lvl_1st ?n - ?n else k + index_deepest_lvl_1st ?n)"
    by (simp add: index_nth_leaf_eq)
  have i: "inj_on (index_nth_leaf ?n) {k. k < ?n}"
    using index_nth_leaf_inj [OF assms] by (auto simp: inj_on_def)
  have c: "{j. ?n \<le> j \<and> j < 2 * ?n} = {j. in_block g j \<and> \<not> in_block g (index_lbranch j) \<and> \<not> in_block g (index_rbranch j)}"
    using assms by (auto simp: in_block_def index_lbranch_def index_rbranch_def)
  have t: "\<forall>j. in_block g j \<and> j \<notin> {j. ?n \<le> j \<and> j < 2 * ?n}
          \<longrightarrow> in_block g (index_lbranch j) \<and> in_block g (index_rbranch j)
            \<and> index_lbranch j \<noteq> index_rbranch j
            \<and> index_parent (index_lbranch j) = j \<and> index_parent (index_rbranch j) = j"
    by (auto simp: in_block_def index_lbranch_def index_rbranch_def index_parent_def)
  show ?thesis using p b f i c t unfolding img by blast
qed


theorem leaf_addressing_witness:
  "1 \<le> gsize \<lparr>heap = (\<lambda>i. 0::int), gsize = 3, op = add\<rparr>
   \<and> index_deepest_lvl_1st 3 = 4
   \<and> map (index_nth_leaf 3) [0, 1, 2] = [4, 5, 3]
   \<and> inj_on (index_nth_leaf 3) {k. k < 3}"
proof -
  have d: "index_deepest_lvl_1st 3 = 4 \<and> map (index_nth_leaf 3) [0, 1, 2] = [4, 5, 3]"
    by code_simp
  show ?thesis
    using leaf_addressing [of "\<lparr>heap = (\<lambda>i. 0::int), gsize = 3, op = add\<rparr>"] d by simp
qed

lemma visit_append:
  "visit f (xs @ ys) s = (case visit f xs s of None \<Rightarrow> None | Some s' \<Rightarrow> visit f ys s')"
  by (induction xs arbitrary: s) (auto split: option.splits)

lemma visit_snoc:
  "visit f (xs @ [i]) s = (case visit f xs s of None \<Rightarrow> None | Some s' \<Rightarrow> f i s')"
  by (simp add: visit_append split: option.splits)

lemma parity_facts:
  "index_parent (2 * a) = a"
  "index_parent (2 * a + 1) = a"
  "index_parent (2 * a + 1 + 1) = a + 1"
  "index_parent (2 * a + 2 - 1) = a"
  "index_islbranch (2 * a) = True"
  "index_islbranch (2 * a + 1) = False"
  "index_islbranch (2 * a + 2) = True"
  "(2 * a + 1 = 2 * b + 1) = (a = b)"
  "(2 * a + 1 + 1 = 2 * b + 1) = False"
  "(2 * a + 1 = 2 * b + 2) = False"
  "(2 * a + 1 + 1 = 2 * b + 2) = (a = b)"
  "(2 * a = 2 * b + 1) = False"
  "(2 * a = 2 * b + 2) = (a = b + 1)"
  "(2 * a + 2 = 0) = False"
  "(2 * a + 1 = 0) = False"
  "2 * a + 2 - 1 = 2 * a + 1"
  by (simp_all add: index_parent_def index_islbranch_def) presburger+

lemma loop_same: "min_covering_loop i i f s = Some (i, s)"
  by (subst min_covering_loop.simps) simp

lemma loop_odd_odd:
  "a \<noteq> b \<Longrightarrow> min_covering_loop (2 * a + 1) (2 * b + 1) f s =
     (case f (2 * a + 1) s of None \<Rightarrow> None
      | Some s1 \<Rightarrow> if a + 1 = 2 * b + 1 then Some (a + 1, s1) else min_covering_loop (a + 1) b f s1)"
  by (subst min_covering_loop.simps, simp only: parity_facts)
     (simp split: option.splits)

lemma loop_odd_even:
  "min_covering_loop (2 * a + 1) (2 * b + 2) f s =
     (case f (2 * a + 1) s of None \<Rightarrow> None
      | Some s1 \<Rightarrow>
         if a = b then Some (2 * a + 2, s1)
         else if a + 1 = 2 * b + 2 then Some (a + 1, s1)
         else (case f (2 * b + 2) s1 of None \<Rightarrow> None
               | Some s2 \<Rightarrow> if a + 1 = 2 * b + 1 then Some (a + 1, s2)
                            else min_covering_loop (a + 1) b f s2))"
  by (subst min_covering_loop.simps, simp only: parity_facts)
     (simp split: option.splits)

lemma loop_even_odd:
  "min_covering_loop (2 * a) (2 * b + 1) f s =
     (if a = 2 * b + 1 then Some (a, s) else min_covering_loop a b f s)"
  by (subst min_covering_loop.simps, simp only: parity_facts) simp

lemma loop_even_even:
  "a \<noteq> b + 1 \<Longrightarrow> min_covering_loop (2 * a) (2 * b + 2) f s =
     (if a = 2 * b + 2 then Some (a, s)
      else (case f (2 * b + 2) s of None \<Rightarrow> None
            | Some s2 \<Rightarrow> if a = 2 * b + 1 then Some (a, s2) else min_covering_loop a b f s2))"
  by (subst min_covering_loop.simps, simp only: parity_facts)
     (simp split: option.splits)

lemma cover_same: "cover_nodes i i = [i]"
  by (subst cover_nodes.simps) simp

lemma cover_odd_odd:
  "a \<noteq> b \<Longrightarrow> cover_nodes (2 * a + 1) (2 * b + 1) =
     (2 * a + 1) # (if a + 1 = 2 * b + 1 then [a + 1] else cover_nodes (a + 1) b)"
  by (subst cover_nodes.simps, simp only: parity_facts) simp

lemma cover_odd_even:
  "cover_nodes (2 * a + 1) (2 * b + 2) =
     (2 * a + 1) # (if a = b then [2 * a + 2]
        else if a + 1 = 2 * b + 2 then [a + 1]
        else (2 * b + 2) # (if a + 1 = 2 * b + 1 then [a + 1] else cover_nodes (a + 1) b))"
  by (subst cover_nodes.simps, simp only: parity_facts) simp

lemma cover_even_odd:
  "cover_nodes (2 * a) (2 * b + 1) = (if a = 2 * b + 1 then [a] else cover_nodes a b)"
proof -
  have "2 * a \<noteq> 2 * b + 1" by presburger
  then show ?thesis
    by (subst cover_nodes.simps, simp only: parity_facts) simp
qed

lemma cover_even_even:
  "a \<noteq> b + 1 \<Longrightarrow> cover_nodes (2 * a) (2 * b + 2) =
     (if a = 2 * b + 2 then [a]
      else (2 * b + 2) # (if a = 2 * b + 1 then [a] else cover_nodes a b))"
  by (subst cover_nodes.simps, simp only: parity_facts) simp

text \<open>Induction over the pairs of indices the loop runs through, by parity.\<close>

lemma parity_cases:
  fixes i1 i2 :: nat
  obtains (same) "i1 = i2"
  | (zero) "i1 \<noteq> i2" "i2 = 0"
  | (odd_odd) a b where "i1 = 2 * a + 1" "i2 = 2 * b + 1" "a \<noteq> b"
  | (odd_even) a b where "i1 = 2 * a + 1" "i2 = 2 * b + 2"
  | (even_odd) a b where "i1 = 2 * a" "i2 = 2 * b + 1"
  | (even_even) a b where "i1 = 2 * a" "i2 = 2 * b + 2" "a \<noteq> b + 1"
proof (cases "i1 = i2 \<or> i2 = 0")
  case True
  then show ?thesis using same zero by blast
next
  case False
  then have ne: "i1 \<noteq> i2" and pos: "i2 \<noteq> 0" by simp_all
  show ?thesis
  proof (cases "even i1")
    case e1: True
    then obtain a where a: "i1 = 2 * a" by (auto elim: evenE)
    show ?thesis
    proof (cases "even i2")
      case True
      with pos obtain b where b: "i2 = 2 * b + 2" by (cases "i2 div 2") (auto elim: evenE)
      with a ne have "a \<noteq> b + 1" by auto
      with a b show ?thesis using even_even by blast
    next
      case False
      then obtain b where b: "i2 = 2 * b + 1" by (auto elim: oddE)
      with a show ?thesis using even_odd by blast
    qed
  next
    case o1: False
    then obtain a where a: "i1 = 2 * a + 1" by (auto elim: oddE)
    show ?thesis
    proof (cases "even i2")
      case True
      with pos obtain b where b: "i2 = 2 * b + 2" by (cases "i2 div 2") (auto elim: evenE)
      with a show ?thesis using odd_even by blast
    next
      case False
      then obtain b where b: "i2 = 2 * b + 1" by (auto elim: oddE)
      with a ne have "a \<noteq> b" by auto
      with a b show ?thesis using odd_odd by blast
    qed
  qed
qed

lemma inv_odd_odd: "2 * a + 1 \<le> 2 * (2 * b + 1) \<Longrightarrow> a + 1 \<noteq> 2 * b + 1 \<Longrightarrow> a + 1 \<le> 2 * (b::nat)"
  by presburger

lemma inv_odd_even:
  "2 * a + 1 \<le> 2 * (2 * b + 2) \<Longrightarrow> a + 1 \<noteq> 2 * b + 2 \<Longrightarrow> a + 1 \<noteq> 2 * b + 1 \<Longrightarrow> a + 1 \<le> 2 * (b::nat)"
  by presburger

lemma inv_even_odd:
  "1 \<le> 2 * a \<Longrightarrow> 2 * a \<le> 2 * (2 * b + 1) \<Longrightarrow> a \<noteq> 2 * b + 1 \<Longrightarrow> 1 \<le> a \<and> a \<le> 2 * (b::nat)"
  by presburger

lemma inv_even_even:
  "1 \<le> 2 * a \<Longrightarrow> 2 * a \<le> 2 * (2 * b + 2) \<Longrightarrow> a \<noteq> 2 * b + 2 \<Longrightarrow> a \<noteq> 2 * b + 1
   \<Longrightarrow> 1 \<le> a \<and> a \<le> 2 * (b::nat)"
  by presburger

lemma step_odd_odd:
  assumes "a \<noteq> b"
    and "\<And>s'. a + 1 \<noteq> 2 * b + 1 \<Longrightarrow>
          (case min_covering_loop (a + 1) b f s' of None \<Rightarrow> None | Some (i, s') \<Rightarrow> f i s')
          = visit f (cover_nodes (a + 1) b) s'"
  shows "(case min_covering_loop (2 * a + 1) (2 * b + 1) f s of None \<Rightarrow> None | Some (i, s') \<Rightarrow> f i s')
          = visit f (cover_nodes (2 * a + 1) (2 * b + 1)) s"
  unfolding loop_odd_odd [OF assms(1)] cover_odd_odd [OF assms(1)]
proof (cases "f (2 * a + 1) s")
  case None
  then show "(case (case f (2 * a + 1) s of None \<Rightarrow> None
      | Some s1 \<Rightarrow> if a + 1 = 2 * b + 1 then Some (a + 1, s1) else min_covering_loop (a + 1) b f s1) of
        None \<Rightarrow> None | Some (i, s') \<Rightarrow> f i s')
     = visit f ((2 * a + 1) # (if a + 1 = 2 * b + 1 then [a + 1] else cover_nodes (a + 1) b)) s"
    by simp
next
  case (Some s1)
  then show "(case (case f (2 * a + 1) s of None \<Rightarrow> None
      | Some s1 \<Rightarrow> if a + 1 = 2 * b + 1 then Some (a + 1, s1) else min_covering_loop (a + 1) b f s1) of
        None \<Rightarrow> None | Some (i, s') \<Rightarrow> f i s')
     = visit f ((2 * a + 1) # (if a + 1 = 2 * b + 1 then [a + 1] else cover_nodes (a + 1) b)) s"
    using assms(2) [of s1] by (cases "a + 1 = 2 * b + 1") (simp_all split: option.splits)
qed

lemma step_odd_even:
  assumes "\<And>s'. a + 1 \<noteq> 2 * b + 2 \<Longrightarrow> a + 1 \<noteq> 2 * b + 1 \<Longrightarrow>
          (case min_covering_loop (a + 1) b f s' of None \<Rightarrow> None | Some (i, s') \<Rightarrow> f i s')
          = visit f (cover_nodes (a + 1) b) s'"
  shows "(case min_covering_loop (2 * a + 1) (2 * b + 2) f s of None \<Rightarrow> None | Some (i, s') \<Rightarrow> f i s')
          = visit f (cover_nodes (2 * a + 1) (2 * b + 2)) s"
proof (cases "f (2 * a + 1) s")
  case None
  then show ?thesis unfolding loop_odd_even [of a b] cover_odd_even [of a b] by simp
next
  case s1: (Some s1)
  show ?thesis
  proof (cases "a = b \<or> a + 1 = 2 * b + 2")
    case True
    with s1 show ?thesis unfolding loop_odd_even [of a b] cover_odd_even [of a b]
      by (auto split: option.splits)
  next
    case ne: False
    show ?thesis
    proof (cases "f (2 * b + 2) s1")
      case None
      with s1 ne show ?thesis unfolding loop_odd_even [of a b] cover_odd_even [of a b] by simp
    next
      case s2: (Some s2)
      show ?thesis
      proof (cases "a + 1 = 2 * b + 1")
        case True
        with s1 s2 ne show ?thesis unfolding loop_odd_even [of a b] cover_odd_even [of a b]
          by (simp split: option.splits)
      next
        case False
        with s1 s2 ne assms [of s2] show ?thesis
          unfolding loop_odd_even [of a b] cover_odd_even [of a b] by simp
      qed
    qed
  qed
qed

lemma step_even_odd:
  assumes "\<And>s'. a \<noteq> 2 * b + 1 \<Longrightarrow>
          (case min_covering_loop a b f s' of None \<Rightarrow> None | Some (i, s') \<Rightarrow> f i s')
          = visit f (cover_nodes a b) s'"
  shows "(case min_covering_loop (2 * a) (2 * b + 1) f s of None \<Rightarrow> None | Some (i, s') \<Rightarrow> f i s')
          = visit f (cover_nodes (2 * a) (2 * b + 1)) s"
  unfolding loop_even_odd [of a b] cover_even_odd [of a b]
  using assms [of s] by (cases "a = 2 * b + 1") (simp_all split: option.splits)

lemma step_even_even:
  assumes "a \<noteq> b + 1"
    and "\<And>s'. a \<noteq> 2 * b + 2 \<Longrightarrow> a \<noteq> 2 * b + 1 \<Longrightarrow>
          (case min_covering_loop a b f s' of None \<Rightarrow> None | Some (i, s') \<Rightarrow> f i s')
          = visit f (cover_nodes a b) s'"
  shows "(case min_covering_loop (2 * a) (2 * b + 2) f s of None \<Rightarrow> None | Some (i, s') \<Rightarrow> f i s')
          = visit f (cover_nodes (2 * a) (2 * b + 2)) s"
proof (cases "a = 2 * b + 2")
  case True
  then show ?thesis unfolding loop_even_even [OF assms(1)] cover_even_even [OF assms(1)]
    by (simp split: option.splits)
next
  case ne: False
  show ?thesis
  proof (cases "f (2 * b + 2) s")
    case None
    with ne show ?thesis unfolding loop_even_even [OF assms(1)] cover_even_even [OF assms(1)]
      by simp
  next
    case s2: (Some s2)
    show ?thesis
    proof (cases "a = 2 * b + 1")
      case True
      with s2 ne show ?thesis unfolding loop_even_even [OF assms(1)] cover_even_even [OF assms(1)]
        by (simp split: option.splits)
    next
      case False
      with s2 ne assms(2) [of s2] show ?thesis
        unfolding loop_even_even [OF assms(1)] cover_even_even [OF assms(1)] by simp
    qed
  qed
qed

lemma min_covering_loop_visit:
  "1 \<le> i1 \<Longrightarrow> i1 \<le> 2 * i2 \<Longrightarrow>
   (case min_covering_loop i1 i2 f s of None \<Rightarrow> None | Some (i, s') \<Rightarrow> f i s')
     = visit f (cover_nodes i1 i2) s"
proof (induction i2 arbitrary: i1 s rule: less_induct)
  case (less i2)
  note pre = less.prems
  show ?case
  proof (cases i1 i2 rule: parity_cases)
    case same
    then show ?thesis by (simp add: loop_same cover_same split: option.splits)
  next
    case zero
    with pre show ?thesis by simp
  next
    case (odd_odd a b)
    have lt: "b < i2" unfolding odd_odd(2) by simp
    show ?thesis unfolding odd_odd(1,2)
    proof (rule step_odd_odd [OF odd_odd(3)])
      fix s' assume ne: "a + 1 \<noteq> 2 * b + 1"
      have "a + 1 \<le> 2 * b" using pre(2) ne unfolding odd_odd(1,2) by (rule inv_odd_odd)
      then show "(case min_covering_loop (a + 1) b f s' of None \<Rightarrow> None | Some (i, s') \<Rightarrow> f i s')
          = visit f (cover_nodes (a + 1) b) s'"
        by (intro less.IH [OF lt]) simp_all
    qed
  next
    case (odd_even a b)
    have lt: "b < i2" unfolding odd_even(2) by simp
    show ?thesis unfolding odd_even(1,2)
    proof (rule step_odd_even)
      fix s' assume ne: "a + 1 \<noteq> 2 * b + 2" "a + 1 \<noteq> 2 * b + 1"
      have "a + 1 \<le> 2 * b" using pre(2) ne unfolding odd_even(1,2) by (rule inv_odd_even)
      then show "(case min_covering_loop (a + 1) b f s' of None \<Rightarrow> None | Some (i, s') \<Rightarrow> f i s')
          = visit f (cover_nodes (a + 1) b) s'"
        by (intro less.IH [OF lt]) simp_all
    qed
  next
    case (even_odd a b)
    have lt: "b < i2" unfolding even_odd(2) by simp
    show ?thesis unfolding even_odd(1,2)
    proof (rule step_even_odd)
      fix s' assume ne: "a \<noteq> 2 * b + 1"
      have "1 \<le> a \<and> a \<le> 2 * b" using pre ne unfolding even_odd(1,2) by (rule inv_even_odd)
      then show "(case min_covering_loop a b f s' of None \<Rightarrow> None | Some (i, s') \<Rightarrow> f i s')
          = visit f (cover_nodes a b) s'"
        by (intro less.IH [OF lt]) simp_all
    qed
  next
    case (even_even a b)
    have lt: "b < i2" unfolding even_even(2) by simp
    show ?thesis unfolding even_even(1,2)
    proof (rule step_even_even [OF even_even(3)])
      fix s' assume ne: "a \<noteq> 2 * b + 2" "a \<noteq> 2 * b + 1"
      have "1 \<le> a \<and> a \<le> 2 * b" using pre ne unfolding even_even(1,2) by (rule inv_even_even)
      then show "(case min_covering_loop a b f s' of None \<Rightarrow> None | Some (i, s') \<Rightarrow> f i s')
          = visit f (cover_nodes a b) s'"
        by (intro less.IH [OF lt]) simp_all
    qed
  qed
qed

lemma cells_of_simps:
  "cells_of n [] = {#}"
  "cells_of n (v # ns) = mset (leaf_cells n v) + cells_of n ns"
  "cells_of n (ns @ ms) = cells_of n ns + cells_of n ms"
  by (simp_all add: cells_of_def)

lemma cells_first: "a < b \<Longrightarrow> cells_of n [a..<b] = mset (leaf_cells n a) + cells_of n [Suc a..<b]"
  by (simp add: upt_conv_Cons cells_of_simps)

lemma cells_last: "a \<le> b \<Longrightarrow> cells_of n [a..<Suc b] = cells_of n [a..<b] + mset (leaf_cells n b)"
  by (simp add: cells_of_simps)

lemma leaf_cells_children:
  assumes "1 \<le> v" "v < 2 * n"
  shows "mset (leaf_cells n (2 * v)) + mset (leaf_cells n (2 * v + 1)) = mset (leaf_cells n v)"
proof (cases "v < n")
  case True
  with assms show ?thesis
    by (subst (3) leaf_cells.simps) (simp add: index_lbranch_def index_rbranch_def)
next
  case False
  have l: "leaf_cells n (2 * v) = [v]"
    using False assms by (subst leaf_cells.simps) (simp add: index_islbranch_def index_parent_def)
  have r: "leaf_cells n (2 * v + 1) = []"
    using False assms by (subst leaf_cells.simps) (simp add: index_islbranch_def)
  have "leaf_cells n v = [v]"
    using False assms by (subst leaf_cells.simps) simp
  with l r show ?thesis by simp
qed

lemma cells_of_double:
  assumes "1 \<le> a" "a \<le> b" "b \<le> 2 * n"
  shows "cells_of n [2 * a..<2 * b] = cells_of n [a..<b]"
  using assms(2,3,1)
proof (induction rule: dec_induct)
  case base
  then show ?case by simp
next
  case (step m)
  have "[2 * a..<2 * Suc m] = [2 * a..<2 * m] @ [2 * m, 2 * m + 1]"
    using step.hyps(1) by simp
  moreover have "cells_of n [2 * a..<2 * m] = cells_of n [a..<m]"
    using step by simp
  moreover have "mset (leaf_cells n (2 * m)) + mset (leaf_cells n (2 * m + 1)) = mset (leaf_cells n m)"
    using step by (intro leaf_cells_children) simp_all
  ultimately show ?case using step.hyps(1) by (simp add: cells_of_simps)
qed

lemma cells_of_leaves:
  assumes "n \<le> a" "b \<le> 2 * n" "1 \<le> a"
  shows "cells_of n [a..<b] = mset [a..<b]"
proof (cases "a \<le> b")
  case True
  then show ?thesis using assms
  proof (induction rule: dec_induct)
    case base
    then show ?case by (simp add: cells_of_simps)
  next
    case (step m)
    have "leaf_cells n m = [m]" using step by (subst leaf_cells.simps) simp
    with step show ?case by (simp add: cells_of_simps)
  qed
next
  case False
  then show ?thesis by (simp add: cells_of_simps)
qed

lemma bounds_odd_odd:
  assumes ne: "a \<noteq> b" and inv: "2 * a + 1 \<le> 2 * (2 * b + 1)"
    and m: "2 * a + 1 < m" "2 * b + 1 < m"
    and v: "v \<in> set (cover_nodes (2 * a + 1) (2 * b + 1))"
    and IH: "\<And>i1. 1 \<le> i1 \<Longrightarrow> i1 \<le> 2 * b \<Longrightarrow> i1 < m \<Longrightarrow> b < m \<Longrightarrow> v \<in> set (cover_nodes i1 b)
               \<Longrightarrow> 1 \<le> v \<and> v < m"
  shows "1 \<le> v \<and> v < m"
proof (cases "a + 1 = 2 * b + 1")
  case True
  with v have "v = 2 * a + 1 \<or> v = a + 1" unfolding cover_odd_odd [OF ne] by simp
  then show ?thesis using m by (elim disjE) simp_all
next
  case False
  with v have "v = 2 * a + 1 \<or> v \<in> set (cover_nodes (a + 1) b)" unfolding cover_odd_odd [OF ne] by simp
  moreover have "a + 1 \<le> 2 * b" using inv False by (rule inv_odd_odd)
  moreover have "a + 1 < m" "b < m" using m by simp_all
  ultimately show ?thesis using IH [of "a + 1"] m(1) by (elim disjE) simp_all
qed

lemma bounds_odd_even:
  assumes inv: "2 * a + 1 \<le> 2 * (2 * b + 2)"
    and m: "2 * a + 1 < m" "2 * b + 2 < m"
    and v: "v \<in> set (cover_nodes (2 * a + 1) (2 * b + 2))"
    and IH: "\<And>i1. 1 \<le> i1 \<Longrightarrow> i1 \<le> 2 * b \<Longrightarrow> i1 < m \<Longrightarrow> b < m \<Longrightarrow> v \<in> set (cover_nodes i1 b)
               \<Longrightarrow> 1 \<le> v \<and> v < m"
  shows "1 \<le> v \<and> v < m"
proof (cases "a = b")
  case True
  with v have "v = 2 * a + 1 \<or> v = 2 * b + 2" unfolding cover_odd_even [of a b] by simp
  then show ?thesis using m by (elim disjE) simp_all
next
  case ne: False
  show ?thesis
  proof (cases "a + 1 = 2 * b + 2")
    case True
    with v ne have "v = 2 * a + 1 \<or> v = a + 1" unfolding cover_odd_even [of a b] by simp
    then show ?thesis using m by (elim disjE) simp_all
  next
    case n2: False
    show ?thesis
    proof (cases "a + 1 = 2 * b + 1")
      case True
      with v ne n2 have "v = 2 * a + 1 \<or> v = 2 * b + 2 \<or> v = a + 1"
        unfolding cover_odd_even [of a b] by simp
      then show ?thesis using m by (elim disjE) simp_all
    next
      case n3: False
      with v ne n2 have "v = 2 * a + 1 \<or> v = 2 * b + 2 \<or> v \<in> set (cover_nodes (a + 1) b)"
        unfolding cover_odd_even [of a b] by simp
      moreover have "a + 1 \<le> 2 * b" using inv n2 n3 by (rule inv_odd_even)
      moreover have "a + 1 < m" "b < m" using m by simp_all
      ultimately show ?thesis using IH [of "a + 1"] m by (elim disjE) simp_all
    qed
  qed
qed

lemma bounds_even_odd:
  assumes inv: "1 \<le> 2 * a" "2 * a \<le> 2 * (2 * b + 1)"
    and m: "2 * a < m" "2 * b + 1 < m"
    and v: "v \<in> set (cover_nodes (2 * a) (2 * b + 1))"
    and IH: "\<And>i1. 1 \<le> i1 \<Longrightarrow> i1 \<le> 2 * b \<Longrightarrow> i1 < m \<Longrightarrow> b < m \<Longrightarrow> v \<in> set (cover_nodes i1 b)
               \<Longrightarrow> 1 \<le> v \<and> v < m"
  shows "1 \<le> v \<and> v < m"
proof (cases "a = 2 * b + 1")
  case True
  with v have "v = a" unfolding cover_even_odd [of a b] by simp
  then show ?thesis using m inv by simp
next
  case False
  with v have "v \<in> set (cover_nodes a b)" unfolding cover_even_odd [of a b] by simp
  moreover have "1 \<le> a \<and> a \<le> 2 * b" using inv False by (rule inv_even_odd)
  moreover have "a < m" "b < m" using m by simp_all
  ultimately show ?thesis using IH [of a] by simp
qed

lemma bounds_even_even:
  assumes ne: "a \<noteq> b + 1" and inv: "1 \<le> 2 * a" "2 * a \<le> 2 * (2 * b + 2)"
    and m: "2 * a < m" "2 * b + 2 < m"
    and v: "v \<in> set (cover_nodes (2 * a) (2 * b + 2))"
    and IH: "\<And>i1. 1 \<le> i1 \<Longrightarrow> i1 \<le> 2 * b \<Longrightarrow> i1 < m \<Longrightarrow> b < m \<Longrightarrow> v \<in> set (cover_nodes i1 b)
               \<Longrightarrow> 1 \<le> v \<and> v < m"
  shows "1 \<le> v \<and> v < m"
proof (cases "a = 2 * b + 2")
  case True
  with v have "v = a" unfolding cover_even_even [OF ne] by simp
  then show ?thesis using m inv by simp
next
  case n2: False
  show ?thesis
  proof (cases "a = 2 * b + 1")
    case True
    with v n2 have "v = 2 * b + 2 \<or> v = a" unfolding cover_even_even [OF ne] by simp
    then show ?thesis using m inv by (elim disjE) simp_all
  next
    case n3: False
    with v n2 have "v = 2 * b + 2 \<or> v \<in> set (cover_nodes a b)" unfolding cover_even_even [OF ne] by simp
    moreover have "1 \<le> a \<and> a \<le> 2 * b" using inv n2 n3 by (rule inv_even_even)
    moreover have "a < m" "b < m" using m by simp_all
    ultimately show ?thesis using IH [of a] m by (elim disjE) simp_all
  qed
qed

lemma cover_nodes_bounds:
  "1 \<le> i1 \<Longrightarrow> i1 \<le> 2 * i2 \<Longrightarrow> i1 < m \<Longrightarrow> i2 < m \<Longrightarrow> v \<in> set (cover_nodes i1 i2)
   \<Longrightarrow> 1 \<le> v \<and> v < m"
proof (induction i2 arbitrary: i1 rule: less_induct)
  case (less i2)
  note pre = less.prems
  show ?case
  proof (cases i1 i2 rule: parity_cases)
    case same
    with pre show ?thesis by (simp add: cover_same)
  next
    case zero
    with pre show ?thesis by simp
  next
    case (odd_odd a b)
    have lt: "b < i2" unfolding odd_odd(2) by simp
    show ?thesis
      by (rule bounds_odd_odd [OF odd_odd(3) pre(2-5) [unfolded odd_odd(1,2)] less.IH [OF lt]])
  next
    case (odd_even a b)
    have lt: "b < i2" unfolding odd_even(2) by simp
    show ?thesis
      by (rule bounds_odd_even [OF pre(2-5) [unfolded odd_even(1,2)] less.IH [OF lt]])
  next
    case (even_odd a b)
    have lt: "b < i2" unfolding even_odd(2) by simp
    show ?thesis
      by (rule bounds_even_odd [OF pre(1-5) [unfolded even_odd(1,2)] less.IH [OF lt]])
  next
    case (even_even a b)
    have lt: "b < i2" unfolding even_even(2) by simp
    show ?thesis
      by (rule bounds_even_even [OF even_even(3) pre(1-5) [unfolded even_even(1,2)] less.IH [OF lt]])
  qed
qed

lemma cells_first': "a < b \<Longrightarrow> cells_of n [a..<b] = mset (leaf_cells n a) + cells_of n [a + 1..<b]"
  by (simp add: upt_conv_Cons cells_of_simps)

lemma cells_last': "a \<le> b \<Longrightarrow> cells_of n [a..<b + 1] = cells_of n [a..<b] + mset (leaf_cells n b)"
  by (simp add: cells_of_simps)

lemma cells_one: "cells_of n [a..<a + 1] = mset (leaf_cells n a)"
  by (simp add: cells_of_simps)

lemma cells_list2: "cells_of n [v, w] = mset (leaf_cells n v) + mset (leaf_cells n w)"
  by (simp add: cells_of_simps)

lemma cells_list1: "cells_of n [v] = mset (leaf_cells n v)"
  by (simp add: cells_of_simps)

text \<open>Both indices in one row.\<close>

lemma row_odd_odd:
  assumes ne: "a \<noteq> b" and le: "2 * a + 1 \<le> 2 * b + 1" and ub: "2 * b + 1 < 2 * n"
    and IH: "\<And>i1. 1 \<le> i1 \<Longrightarrow> i1 \<le> b \<Longrightarrow> b < 2 * n \<Longrightarrow>
               cells_of n (cover_nodes i1 b) = cells_of n [i1..<b + 1]"
  shows "cells_of n (cover_nodes (2 * a + 1) (2 * b + 1)) = cells_of n [2 * a + 1..<2 * b + 1 + 1]"
proof -
  have ab: "a < b" using ne le by simp
  then have n1: "a + 1 \<noteq> 2 * b + 1" by simp
  have "cells_of n (cover_nodes (2 * a + 1) (2 * b + 1))
      = mset (leaf_cells n (2 * a + 1)) + cells_of n (cover_nodes (a + 1) b)"
    unfolding cover_odd_odd [OF ne] using n1 by (simp add: cells_of_simps)
  also have "cells_of n (cover_nodes (a + 1) b) = cells_of n [a + 1..<b + 1]"
    by (rule IH) (use ab ub in simp_all)
  also have "\<dots> = cells_of n [2 * (a + 1)..<2 * (b + 1)]"
    by (rule cells_of_double [symmetric]) (use ab ub in simp_all)
  also have "[2 * (a + 1)..<2 * (b + 1)] = [2 * a + 1 + 1..<2 * b + 1 + 1]" by simp
  also have "mset (leaf_cells n (2 * a + 1)) + cells_of n [2 * a + 1 + 1..<2 * b + 1 + 1]
      = cells_of n [2 * a + 1..<2 * b + 1 + 1]"
    by (rule cells_first' [symmetric]) (use ab in simp)
  finally show ?thesis .
qed

lemma row_odd_even:
  assumes le: "2 * a + 1 \<le> 2 * b + 2" and ub: "2 * b + 2 < 2 * n"
    and IH: "\<And>i1. 1 \<le> i1 \<Longrightarrow> i1 \<le> b \<Longrightarrow> b < 2 * n \<Longrightarrow>
               cells_of n (cover_nodes i1 b) = cells_of n [i1..<b + 1]"
  shows "cells_of n (cover_nodes (2 * a + 1) (2 * b + 2)) = cells_of n [2 * a + 1..<2 * b + 2 + 1]"
proof (cases "a = b")
  case True
  have "cells_of n (cover_nodes (2 * a + 1) (2 * b + 2))
      = mset (leaf_cells n (2 * a + 1)) + mset (leaf_cells n (2 * a + 2))"
    unfolding cover_odd_even [of a b] using True by (simp add: cells_of_simps)
  also have "\<dots> = cells_of n [2 * a + 1, 2 * a + 2]" by (rule cells_list2 [symmetric])
  also have "[2 * a + 1, 2 * a + 2] = [2 * a + 1..<2 * b + 2 + 1]"
    using True by (simp add: upt_rec)
  finally show ?thesis .
next
  case False
  then have ab: "a < b" using le by simp
  then have n2: "a + 1 \<noteq> 2 * b + 2" and n3: "a + 1 \<noteq> 2 * b + 1" by simp_all
  have "cells_of n (cover_nodes (2 * a + 1) (2 * b + 2))
      = mset (leaf_cells n (2 * a + 1)) + (mset (leaf_cells n (2 * b + 2)) + cells_of n (cover_nodes (a + 1) b))"
    unfolding cover_odd_even [of a b] using False n2 n3 by (simp add: cells_of_simps)
  also have "cells_of n (cover_nodes (a + 1) b) = cells_of n [a + 1..<b + 1]"
    by (rule IH) (use ab ub in simp_all)
  also have "\<dots> = cells_of n [2 * (a + 1)..<2 * (b + 1)]"
    by (rule cells_of_double [symmetric]) (use ab ub in simp_all)
  also have "[2 * (a + 1)..<2 * (b + 1)] = [2 * a + 1 + 1..<2 * b + 2]" by simp
  also have "mset (leaf_cells n (2 * b + 2)) + cells_of n [2 * a + 1 + 1..<2 * b + 2]
      = cells_of n [2 * a + 1 + 1..<2 * b + 2 + 1]"
    by (subst add.commute, rule cells_last' [symmetric]) (use ab in simp)
  also have "mset (leaf_cells n (2 * a + 1)) + cells_of n [2 * a + 1 + 1..<2 * b + 2 + 1]
      = cells_of n [2 * a + 1..<2 * b + 2 + 1]"
    by (rule cells_first' [symmetric]) (use ab in simp)
  finally show ?thesis .
qed

lemma row_even_odd:
  assumes pos: "1 \<le> 2 * a" and le: "2 * a \<le> 2 * b + 1" and ub: "2 * b + 1 < 2 * n"
    and IH: "\<And>i1. 1 \<le> i1 \<Longrightarrow> i1 \<le> b \<Longrightarrow> b < 2 * n \<Longrightarrow>
               cells_of n (cover_nodes i1 b) = cells_of n [i1..<b + 1]"
  shows "cells_of n (cover_nodes (2 * a) (2 * b + 1)) = cells_of n [2 * a..<2 * b + 1 + 1]"
proof -
  have ab: "1 \<le> a" "a \<le> b" using pos le by simp_all
  then have n1: "a \<noteq> 2 * b + 1" by simp
  have "cells_of n (cover_nodes (2 * a) (2 * b + 1)) = cells_of n (cover_nodes a b)"
    unfolding cover_even_odd [of a b] using n1 by simp
  also have "\<dots> = cells_of n [a..<b + 1]"
    by (rule IH) (use ab ub in simp_all)
  also have "\<dots> = cells_of n [2 * a..<2 * (b + 1)]"
    by (rule cells_of_double [symmetric]) (use ab ub in simp_all)
  also have "[2 * a..<2 * (b + 1)] = [2 * a..<2 * b + 1 + 1]" by simp
  finally show ?thesis .
qed

lemma row_even_even:
  assumes ne: "a \<noteq> b + 1" and pos: "1 \<le> 2 * a" and le: "2 * a \<le> 2 * b + 2" and ub: "2 * b + 2 < 2 * n"
    and IH: "\<And>i1. 1 \<le> i1 \<Longrightarrow> i1 \<le> b \<Longrightarrow> b < 2 * n \<Longrightarrow>
               cells_of n (cover_nodes i1 b) = cells_of n [i1..<b + 1]"
  shows "cells_of n (cover_nodes (2 * a) (2 * b + 2)) = cells_of n [2 * a..<2 * b + 2 + 1]"
proof -
  have ab: "1 \<le> a" "a \<le> b" using pos le ne by simp_all
  then have n2: "a \<noteq> 2 * b + 2" and n3: "a \<noteq> 2 * b + 1" by simp_all
  have "cells_of n (cover_nodes (2 * a) (2 * b + 2))
      = mset (leaf_cells n (2 * b + 2)) + cells_of n (cover_nodes a b)"
    unfolding cover_even_even [OF ne] using n2 n3 by (simp add: cells_of_simps)
  also have "cells_of n (cover_nodes a b) = cells_of n [a..<b + 1]"
    by (rule IH) (use ab ub in simp_all)
  also have "\<dots> = cells_of n [2 * a..<2 * (b + 1)]"
    by (rule cells_of_double [symmetric]) (use ab ub in simp_all)
  also have "[2 * a..<2 * (b + 1)] = [2 * a..<2 * b + 2]" by simp
  also have "mset (leaf_cells n (2 * b + 2)) + cells_of n [2 * a..<2 * b + 2]
      = cells_of n [2 * a..<2 * b + 2 + 1]"
    by (subst add.commute, rule cells_last' [symmetric]) (use ab in simp)
  finally show ?thesis .
qed

lemma cover_nodes_row:
  "1 \<le> i1 \<Longrightarrow> i1 \<le> i2 \<Longrightarrow> i2 < 2 * n \<Longrightarrow>
   cells_of n (cover_nodes i1 i2) = cells_of n [i1..<i2 + 1]"
proof (induction i2 arbitrary: i1 rule: less_induct)
  case (less i2)
  note pre = less.prems
  show ?case
  proof (cases i1 i2 rule: parity_cases)
    case same
    then show ?thesis by (simp add: cover_same cells_of_simps)
  next
    case zero
    with pre show ?thesis by simp
  next
    case (odd_odd a b)
    have lt: "b < i2" unfolding odd_odd(2) by simp
    show ?thesis unfolding odd_odd(1,2)
      by (rule row_odd_odd [OF odd_odd(3) pre(2,3) [unfolded odd_odd(1,2)] less.IH [OF lt]])
  next
    case (odd_even a b)
    have lt: "b < i2" unfolding odd_even(2) by simp
    show ?thesis unfolding odd_even(1,2)
      by (rule row_odd_even [OF pre(2,3) [unfolded odd_even(1,2)] less.IH [OF lt]])
  next
    case (even_odd a b)
    have lt: "b < i2" unfolding even_odd(2) by simp
    show ?thesis unfolding even_odd(1,2)
      by (rule row_even_odd [OF pre(1,2,3) [unfolded even_odd(1,2)] less.IH [OF lt]])
  next
    case (even_even a b)
    have lt: "b < i2" unfolding even_even(2) by simp
    show ?thesis unfolding even_even(1,2)
      by (rule row_even_even [OF even_even(3) pre(1,2,3) [unfolded even_even(1,2)] less.IH [OF lt]])
  qed
qed

lemma stag_odd_odd:
  assumes ne: "a \<noteq> b" and lt: "2 * b + 1 < 2 * a + 1" and inv: "2 * a + 1 \<le> 2 * (2 * b + 1)"
    and ub: "2 * a + 1 < 2 * n"
    and IH: "\<And>i1. 1 \<le> b \<Longrightarrow> b < i1 \<Longrightarrow> i1 \<le> 2 * b \<Longrightarrow> i1 < 2 * n \<Longrightarrow>
               cells_of n (cover_nodes i1 b) = cells_of n [i1..<2 * b + 2]"
  shows "cells_of n (cover_nodes (2 * a + 1) (2 * b + 1)) = cells_of n [2 * a + 1..<2 * (2 * b + 1) + 2]"
proof -
  have ba: "b < a" using lt by simp
  have a2: "a \<le> 2 * b" using inv by presburger
  have b1: "1 \<le> b" using ba a2 by simp
  have target: "cells_of n [2 * a + 1..<2 * (2 * b + 1) + 2]
      = mset (leaf_cells n (2 * a + 1)) + cells_of n [a + 1..<2 * b + 2]"
  proof -
    have "cells_of n [2 * a + 1..<2 * (2 * b + 1) + 2]
        = mset (leaf_cells n (2 * a + 1)) + cells_of n [2 * a + 1 + 1..<2 * (2 * b + 1) + 2]"
      by (rule cells_first') (use a2 in simp)
    also have "[2 * a + 1 + 1..<2 * (2 * b + 1) + 2] = [2 * (a + 1)..<2 * (2 * b + 2)]"
      by (intro arg_cong2 [where f = upt]) simp_all
    also have "cells_of n [2 * (a + 1)..<2 * (2 * b + 2)] = cells_of n [a + 1..<2 * b + 2]"
      by (rule cells_of_double) (use a2 ba ub in simp_all)
    finally show ?thesis .
  qed
  show ?thesis
  proof (cases "a + 1 = 2 * b + 1")
    case True
    have "cells_of n (cover_nodes (2 * a + 1) (2 * b + 1))
        = mset (leaf_cells n (2 * a + 1)) + mset (leaf_cells n (a + 1))"
      unfolding cover_odd_odd [OF ne] using True by (simp add: cells_of_simps)
    also have "mset (leaf_cells n (a + 1)) = cells_of n [a + 1..<a + 1 + 1]"
      by (rule cells_one [symmetric])
    also have "[a + 1..<a + 1 + 1] = [a + 1..<2 * b + 2]"
      using True by (intro arg_cong2 [where f = upt]) simp_all
    finally show ?thesis unfolding target .
  next
    case False
    then have a3: "a + 1 \<le> 2 * b" using a2 by simp
    have "cells_of n (cover_nodes (2 * a + 1) (2 * b + 1))
        = mset (leaf_cells n (2 * a + 1)) + cells_of n (cover_nodes (a + 1) b)"
      unfolding cover_odd_odd [OF ne] using False by (simp add: cells_of_simps)
    also have "cells_of n (cover_nodes (a + 1) b) = cells_of n [a + 1..<2 * b + 2]"
      by (rule IH) (use b1 ba a3 ub in simp_all)
    finally show ?thesis unfolding target .
  qed
qed

lemma stag_odd_even:
  assumes lt: "2 * b + 2 < 2 * a + 1" and inv: "2 * a + 1 \<le> 2 * (2 * b + 2)"
    and ub: "2 * a + 1 < 2 * n"
    and IH: "\<And>i1. 1 \<le> b \<Longrightarrow> b < i1 \<Longrightarrow> i1 \<le> 2 * b \<Longrightarrow> i1 < 2 * n \<Longrightarrow>
               cells_of n (cover_nodes i1 b) = cells_of n [i1..<2 * b + 2]"
  shows "cells_of n (cover_nodes (2 * a + 1) (2 * b + 2)) = cells_of n [2 * a + 1..<2 * (2 * b + 2) + 2]"
proof -
  have ba: "b < a" using lt by simp
  have a2: "a \<le> 2 * b + 1" using inv by presburger
  have target: "cells_of n [2 * a + 1..<2 * (2 * b + 2) + 2]
      = mset (leaf_cells n (2 * a + 1)) + cells_of n [a + 1..<2 * b + 3]"
  proof -
    have "cells_of n [2 * a + 1..<2 * (2 * b + 2) + 2]
        = mset (leaf_cells n (2 * a + 1)) + cells_of n [2 * a + 1 + 1..<2 * (2 * b + 2) + 2]"
      by (rule cells_first') (use a2 in simp)
    also have "[2 * a + 1 + 1..<2 * (2 * b + 2) + 2] = [2 * (a + 1)..<2 * (2 * b + 3)]"
      by (intro arg_cong2 [where f = upt]) simp_all
    also have "cells_of n [2 * (a + 1)..<2 * (2 * b + 3)] = cells_of n [a + 1..<2 * b + 3]"
      by (rule cells_of_double) (use a2 lt ub in simp_all)
    finally show ?thesis .
  qed
  show ?thesis
  proof (cases "a + 1 = 2 * b + 2")
    case True
    have "cells_of n (cover_nodes (2 * a + 1) (2 * b + 2))
        = mset (leaf_cells n (2 * a + 1)) + mset (leaf_cells n (a + 1))"
      unfolding cover_odd_even [of a b] using True ba by (simp add: cells_of_simps)
    also have "mset (leaf_cells n (a + 1)) = cells_of n [a + 1..<a + 1 + 1]"
      by (rule cells_one [symmetric])
    also have "[a + 1..<a + 1 + 1] = [a + 1..<2 * b + 3]"
      using True by (intro arg_cong2 [where f = upt]) simp_all
    finally show ?thesis unfolding target .
  next
    case n2: False
    then have a3: "a + 1 \<le> 2 * b + 1" using a2 by simp
    have split: "cells_of n [a + 1..<2 * b + 3]
        = mset (leaf_cells n (2 * b + 2)) + cells_of n [a + 1..<2 * b + 2]"
    proof -
      have "[a + 1..<2 * b + 3] = [a + 1..<2 * b + 2 + 1]"
      by (intro arg_cong2 [where f = upt]) simp_all
      also have "cells_of n [a + 1..<2 * b + 2 + 1]
          = cells_of n [a + 1..<2 * b + 2] + mset (leaf_cells n (2 * b + 2))"
        by (rule cells_last') (use a3 in simp)
      finally show ?thesis by (simp add: add.commute)
    qed
    show ?thesis
    proof (cases "a + 1 = 2 * b + 1")
      case True
      have "cells_of n (cover_nodes (2 * a + 1) (2 * b + 2))
          = mset (leaf_cells n (2 * a + 1)) + (mset (leaf_cells n (2 * b + 2)) + mset (leaf_cells n (a + 1)))"
        unfolding cover_odd_even [of a b] using True n2 ba by (simp add: cells_of_simps)
      also have "mset (leaf_cells n (a + 1)) = cells_of n [a + 1..<a + 1 + 1]"
        by (rule cells_one [symmetric])
      also have "[a + 1..<a + 1 + 1] = [a + 1..<2 * b + 2]"
      using True by (intro arg_cong2 [where f = upt]) simp_all
      finally show ?thesis unfolding target split .
    next
      case n3: False
      then have a4: "a + 1 \<le> 2 * b" using a3 by simp
      then have b1: "1 \<le> b" by simp
      have "cells_of n (cover_nodes (2 * a + 1) (2 * b + 2))
          = mset (leaf_cells n (2 * a + 1)) + (mset (leaf_cells n (2 * b + 2)) + cells_of n (cover_nodes (a + 1) b))"
        unfolding cover_odd_even [of a b] using n2 n3 ba by (simp add: cells_of_simps)
      also have "cells_of n (cover_nodes (a + 1) b) = cells_of n [a + 1..<2 * b + 2]"
        by (rule IH) (use b1 ba a4 ub in simp_all)
      finally show ?thesis unfolding target split .
    qed
  qed
qed

lemma stag_even_odd:
  assumes lt: "2 * b + 1 < 2 * a" and inv: "2 * a \<le> 2 * (2 * b + 1)"
    and ub: "2 * a < 2 * n"
    and IH: "\<And>i1. 1 \<le> b \<Longrightarrow> b < i1 \<Longrightarrow> i1 \<le> 2 * b \<Longrightarrow> i1 < 2 * n \<Longrightarrow>
               cells_of n (cover_nodes i1 b) = cells_of n [i1..<2 * b + 2]"
  shows "cells_of n (cover_nodes (2 * a) (2 * b + 1)) = cells_of n [2 * a..<2 * (2 * b + 1) + 2]"
proof -
  have ba: "b < a" using lt by simp
  have a2: "a \<le> 2 * b + 1" using inv by simp
  have target: "cells_of n [2 * a..<2 * (2 * b + 1) + 2] = cells_of n [a..<2 * b + 2]"
  proof -
    have "[2 * a..<2 * (2 * b + 1) + 2] = [2 * a..<2 * (2 * b + 2)]"
      by (intro arg_cong2 [where f = upt]) simp_all
    also have "cells_of n [2 * a..<2 * (2 * b + 2)] = cells_of n [a..<2 * b + 2]"
      by (rule cells_of_double) (use a2 ba lt ub in simp_all)
    finally show ?thesis .
  qed
  show ?thesis
  proof (cases "a = 2 * b + 1")
    case True
    have "cells_of n (cover_nodes (2 * a) (2 * b + 1)) = mset (leaf_cells n a)"
      unfolding cover_even_odd [of a b] using True by (simp add: cells_of_simps)
    also have "\<dots> = cells_of n [a..<a + 1]" by (rule cells_one [symmetric])
    also have "[a..<a + 1] = [a..<2 * b + 2]"
      using True by (intro arg_cong2 [where f = upt]) simp_all
    finally show ?thesis unfolding target .
  next
    case False
    then have a3: "a \<le> 2 * b" using a2 by simp
    then have b1: "1 \<le> b" using ba by simp
    have "cells_of n (cover_nodes (2 * a) (2 * b + 1)) = cells_of n (cover_nodes a b)"
      unfolding cover_even_odd [of a b] using False by simp
    also have "\<dots> = cells_of n [a..<2 * b + 2]"
      by (rule IH) (use b1 ba a3 ub in simp_all)
    finally show ?thesis unfolding target .
  qed
qed

lemma stag_even_even:
  assumes ne: "a \<noteq> b + 1" and lt: "2 * b + 2 < 2 * a" and inv: "2 * a \<le> 2 * (2 * b + 2)"
    and ub: "2 * a < 2 * n"
    and IH: "\<And>i1. 1 \<le> b \<Longrightarrow> b < i1 \<Longrightarrow> i1 \<le> 2 * b \<Longrightarrow> i1 < 2 * n \<Longrightarrow>
               cells_of n (cover_nodes i1 b) = cells_of n [i1..<2 * b + 2]"
  shows "cells_of n (cover_nodes (2 * a) (2 * b + 2)) = cells_of n [2 * a..<2 * (2 * b + 2) + 2]"
proof -
  have ba: "b + 1 < a" using lt by simp
  have a2: "a \<le> 2 * b + 2" using inv by simp
  have target: "cells_of n [2 * a..<2 * (2 * b + 2) + 2] = cells_of n [a..<2 * b + 3]"
  proof -
    have "[2 * a..<2 * (2 * b + 2) + 2] = [2 * a..<2 * (2 * b + 3)]"
      by (intro arg_cong2 [where f = upt]) simp_all
    also have "cells_of n [2 * a..<2 * (2 * b + 3)] = cells_of n [a..<2 * b + 3]"
      by (rule cells_of_double) (use a2 ba lt ub in simp_all)
    finally show ?thesis .
  qed
  show ?thesis
  proof (cases "a = 2 * b + 2")
    case True
    have "cells_of n (cover_nodes (2 * a) (2 * b + 2)) = mset (leaf_cells n a)"
      unfolding cover_even_even [OF ne] using True by (simp add: cells_of_simps)
    also have "\<dots> = cells_of n [a..<a + 1]" by (rule cells_one [symmetric])
    also have "[a..<a + 1] = [a..<2 * b + 3]"
      using True by (intro arg_cong2 [where f = upt]) simp_all
    finally show ?thesis unfolding target .
  next
    case n2: False
    then have a3: "a \<le> 2 * b + 1" using a2 by simp
    have split: "cells_of n [a..<2 * b + 3]
        = mset (leaf_cells n (2 * b + 2)) + cells_of n [a..<2 * b + 2]"
    proof -
      have "[a..<2 * b + 3] = [a..<2 * b + 2 + 1]"
      by (intro arg_cong2 [where f = upt]) simp_all
      also have "cells_of n [a..<2 * b + 2 + 1]
          = cells_of n [a..<2 * b + 2] + mset (leaf_cells n (2 * b + 2))"
        by (rule cells_last') (use a3 in simp)
      finally show ?thesis by (simp add: add.commute)
    qed
    show ?thesis
    proof (cases "a = 2 * b + 1")
      case True
      have "cells_of n (cover_nodes (2 * a) (2 * b + 2))
          = mset (leaf_cells n (2 * b + 2)) + mset (leaf_cells n a)"
        unfolding cover_even_even [OF ne] using True n2 by (simp add: cells_of_simps)
      also have "mset (leaf_cells n a) = cells_of n [a..<a + 1]"
        by (rule cells_one [symmetric])
      also have "[a..<a + 1] = [a..<2 * b + 2]"
      using True by (intro arg_cong2 [where f = upt]) simp_all
      finally show ?thesis unfolding target split .
    next
      case n3: False
      then have a4: "a \<le> 2 * b" using a3 by simp
      then have b1: "1 \<le> b" using ba by simp
      have "cells_of n (cover_nodes (2 * a) (2 * b + 2))
          = mset (leaf_cells n (2 * b + 2)) + cells_of n (cover_nodes a b)"
        unfolding cover_even_even [OF ne] using n2 n3 by (simp add: cells_of_simps)
      also have "cells_of n (cover_nodes a b) = cells_of n [a..<2 * b + 2]"
        by (rule IH) (use b1 ba a4 ub in simp_all)
      finally show ?thesis unfolding target split .
    qed
  qed
qed

lemma cover_nodes_staggered:
  "1 \<le> i2 \<Longrightarrow> i2 < i1 \<Longrightarrow> i1 \<le> 2 * i2 \<Longrightarrow> i1 < 2 * n \<Longrightarrow>
   cells_of n (cover_nodes i1 i2) = cells_of n [i1..<2 * i2 + 2]"
proof (induction i2 arbitrary: i1 rule: less_induct)
  case (less i2)
  note pre = less.prems
  show ?case
  proof (cases i1 i2 rule: parity_cases)
    case same
    with pre show ?thesis by simp
  next
    case zero
    with pre show ?thesis by simp
  next
    case (odd_odd a b)
    have lt: "b < i2" unfolding odd_odd(2) by simp
    show ?thesis unfolding odd_odd(1,2)
      by (rule stag_odd_odd [OF odd_odd(3) pre(2,3,4) [unfolded odd_odd(1,2)] less.IH [OF lt]])
  next
    case (odd_even a b)
    have lt: "b < i2" unfolding odd_even(2) by simp
    show ?thesis unfolding odd_even(1,2)
      by (rule stag_odd_even [OF pre(2,3,4) [unfolded odd_even(1,2)] less.IH [OF lt]])
  next
    case (even_odd a b)
    have lt: "b < i2" unfolding even_odd(2) by simp
    show ?thesis unfolding even_odd(1,2)
      by (rule stag_even_odd [OF pre(2,3,4) [unfolded even_odd(1,2)] less.IH [OF lt]])
  next
    case (even_even a b)
    have lt: "b < i2" unfolding even_even(2) by simp
    show ?thesis unfolding even_even(1,2)
      by (rule stag_even_even [OF even_even(3) pre(2,3,4) [unfolded even_even(1,2)] less.IH [OF lt]])
  qed
qed

lemma act_on_min_covering_ancestors_visit:
  assumes "1 \<le> n" "i1 < i2" "i2 \<le> n"
  shows "act_on_min_covering_ancestors n i1 i2 f s = visit f (covering_nodes n i1 i2) s"
proof -
  have l: "n \<le> index_nth_leaf n i1 \<and> index_nth_leaf n i1 < 2 * n"
    by (rule index_nth_leaf_range) (use assms in simp_all)
  have r: "n \<le> index_nth_leaf n (i2 - 1) \<and> index_nth_leaf n (i2 - 1) < 2 * n"
    by (rule index_nth_leaf_range) (use assms in simp_all)
  have "(case min_covering_loop (index_nth_leaf n i1) (index_nth_leaf n (i2 - 1)) f s of
          None \<Rightarrow> None | Some (i, s') \<Rightarrow> f i s')
        = visit f (cover_nodes (index_nth_leaf n i1) (index_nth_leaf n (i2 - 1))) s"
    by (rule min_covering_loop_visit) (use l r assms(1) in simp_all)
  then show ?thesis
    using assms(2) by (simp add: act_on_min_covering_ancestors_def covering_nodes_def)
qed

lemma covering_nodes_bounds:
  assumes "1 \<le> n" "i1 < i2" "i2 \<le> n" "v \<in> set (covering_nodes n i1 i2)"
  shows "1 \<le> v \<and> v < 2 * n"
proof -
  have l: "n \<le> index_nth_leaf n i1 \<and> index_nth_leaf n i1 < 2 * n"
    by (rule index_nth_leaf_range) (use assms in simp_all)
  have r: "n \<le> index_nth_leaf n (i2 - 1) \<and> index_nth_leaf n (i2 - 1) < 2 * n"
    by (rule index_nth_leaf_range) (use assms in simp_all)
  show ?thesis
    by (rule cover_nodes_bounds [of "index_nth_leaf n i1" "index_nth_leaf n (i2 - 1)"])
       (use l r assms(1,4) in \<open>simp_all add: covering_nodes_def\<close>)
qed

lemma map_shift_upt: "map (\<lambda>k. k + c) [a..<b] = [a + c..<b + c]"
  by (induction b) simp_all

lemma upt_split: "i \<le> j \<Longrightarrow> j \<le> k \<Longrightarrow> [i..<k] = [i..<j] @ [j..<k]"
  using upt_add_eq_append [of i j "k - j"] by simp

lemma covering_nodes_cells:
  assumes n: "1 \<le> n" and lt: "i1 < i2" and le: "i2 \<le> n"
  shows "cells_of n (covering_nodes n i1 i2) = mset (map (index_nth_leaf n) [i1..<i2])"
proof -
  define D where "D = index_deepest_lvl_1st n"
  have D: "n \<le> D" "D < 2 * n" using index_deepest_lvl_1st_bounds [OF n] by (simp_all add: D_def)
  have idx: "index_nth_leaf n k = (if k + D < 2 * n then k + D else k + D - n)" for k
    by (simp add: index_nth_leaf_eq D_def)
  consider (deep) "i2 - 1 + D < 2 * n" | (upper) "2 * n \<le> i1 + D"
    | (both) "i1 + D < 2 * n" "2 * n \<le> i2 - 1 + D"
    by linarith
  then show ?thesis
  proof cases
    case deep
    have "k + D < 2 * n" if "k < i2" for k using deep that by linarith
    then have m: "map (index_nth_leaf n) [i1..<i2] = map (\<lambda>k. k + D) [i1..<i2]"
      by (intro map_cong [OF refl]) (simp add: idx)
    have i1D: "i1 + D < 2 * n" using deep lt by linarith
    have L: "index_nth_leaf n i1 = i1 + D" and R: "index_nth_leaf n (i2 - 1) = i2 - 1 + D"
      using deep i1D by (simp_all add: idx)
    have "cells_of n (covering_nodes n i1 i2) = cells_of n [i1 + D..<i2 - 1 + D + 1]"
      unfolding covering_nodes_def L R
      by (rule cover_nodes_row) (use lt D deep n in simp_all)
    also have "[i1 + D..<i2 - 1 + D + 1] = [i1 + D..<i2 + D]"
      by (intro arg_cong2 [where f = upt]) (use lt in simp_all)
    also have "cells_of n [i1 + D..<i2 + D] = mset [i1 + D..<i2 + D]"
      by (rule cells_of_leaves) (use lt D deep n in simp_all)
    finally show ?thesis unfolding m map_shift_upt .
  next
    case upper
    have "\<not> k + D < 2 * n \<and> k + D - n = k + (D - n)" if "i1 \<le> k" for k
      using upper that D by linarith
    then have ix: "index_nth_leaf n k = k + (D - n)" if "i1 \<le> k" for k
      using that by (simp add: idx)
    have m: "map (index_nth_leaf n) [i1..<i2] = map (\<lambda>k. k + (D - n)) [i1..<i2]"
      by (intro map_cong [OF refl]) (simp add: ix)
    have L: "index_nth_leaf n i1 = i1 + (D - n)" and R: "index_nth_leaf n (i2 - 1) = i2 - 1 + (D - n)"
      using lt by (simp_all add: ix)
    have "cells_of n (covering_nodes n i1 i2) = cells_of n [i1 + (D - n)..<i2 - 1 + (D - n) + 1]"
      unfolding covering_nodes_def L R
      by (rule cover_nodes_row) (use lt le D upper n in simp_all)
    also have "[i1 + (D - n)..<i2 - 1 + (D - n) + 1] = [i1 + (D - n)..<i2 + (D - n)]"
      by (intro arg_cong2 [where f = upt]) (use lt in simp_all)
    also have "cells_of n [i1 + (D - n)..<i2 + (D - n)] = mset [i1 + (D - n)..<i2 + (D - n)]"
      by (rule cells_of_leaves) (use lt le D upper n in simp_all)
    finally show ?thesis unfolding m map_shift_upt .
  next
    case both
    define c where "c = 2 * n - D"
    have c: "i1 < c" "c < i2" "c + D = 2 * n" using both D lt by (simp_all add: c_def)
    have "[i1..<i2] = [i1..<c] @ [c..<i2]"
      by (rule upt_split) (use c in simp_all)
    then have "map (index_nth_leaf n) [i1..<i2]
        = map (index_nth_leaf n) [i1..<c] @ map (index_nth_leaf n) [c..<i2]" by simp
    moreover have "k + D < 2 * n" if "k < c" for k using c that by linarith
    then have "map (index_nth_leaf n) [i1..<c] = map (\<lambda>k. k + D) [i1..<c]"
      by (intro map_cong [OF refl]) (simp add: idx)
    moreover have "\<not> k + D < 2 * n \<and> k + D - n = k + (D - n)" if "c \<le> k" for k
      using c that D by linarith
    then have ix: "index_nth_leaf n k = k + (D - n)" if "c \<le> k" for k
      using that by (simp add: idx)
    then have "map (index_nth_leaf n) [c..<i2] = map (\<lambda>k. k + (D - n)) [c..<i2]"
      by (intro map_cong [OF refl]) simp
    ultimately have m: "mset (map (index_nth_leaf n) [i1..<i2])
        = mset [i1 + D..<c + D] + mset [c + (D - n)..<i2 + (D - n)]"
      by (simp add: map_shift_upt)
    have L: "index_nth_leaf n i1 = i1 + D" using both by (simp add: idx)
    have R: "index_nth_leaf n (i2 - 1) = i2 - 1 + (D - n)" using c by (intro ix) simp
    have "cells_of n (covering_nodes n i1 i2) = cells_of n [i1 + D..<2 * (i2 - 1 + (D - n)) + 2]"
      unfolding covering_nodes_def L R
      by (rule cover_nodes_staggered) (use lt le D both n in simp_all)
    also have "2 * (i2 - 1 + (D - n)) + 2 = 2 * (i2 + (D - n))" using lt by simp
    also have "[i1 + D..<2 * (i2 + (D - n))] = [i1 + D..<2 * n] @ [2 * n..<2 * (i2 + (D - n))]"
      by (rule upt_split) (use both lt D in simp_all)
    also have "cells_of n ([i1 + D..<2 * n] @ [2 * n..<2 * (i2 + (D - n))])
        = cells_of n [i1 + D..<2 * n] + cells_of n [2 * n..<2 * (i2 + (D - n))]"
      by (simp add: cells_of_simps)
    also have "cells_of n [2 * n..<2 * (i2 + (D - n))] = cells_of n [n..<i2 + (D - n)]"
      by (rule cells_of_double) (use lt le D both n in simp_all)
    also have "\<dots> = mset [n..<i2 + (D - n)]"
      by (rule cells_of_leaves) (use lt le D both n in simp_all)
    also have "cells_of n [i1 + D..<2 * n] = mset [i1 + D..<2 * n]"
      by (rule cells_of_leaves) (use lt le D both n in simp_all)
    finally show ?thesis unfolding m using c D by (simp add: c_def)
  qed
qed

lemma monoid_opD:
  assumes "monoid_op f"
  shows "combine f (combine f a b) c = combine f a (combine f b c)"
    and "combine f a (identity f) = a" and "combine f (identity f) a = a"
  using assms by (simp_all add: monoid_op_def)

lemma chain_value_0: "chain_value g 0 = identity (op g)"
  by (subst chain_value.simps) simp

lemma chain_value_pos:
  "q \<noteq> 0 \<Longrightarrow> chain_value g q = combine (op g) (heap g q) (chain_value g (q div 2))"
  by (subst chain_value.simps) (simp add: index_parent_def)

lemma leafup_get:
  assumes m: "monoid_op (op g)"
  shows "q < 2 * gsize g \<Longrightarrow>
    act_on_all_ancestors_leafup q (functor_get g) res = Some (combine (op g) res (chain_value g q))"
proof (induction q arbitrary: res rule: less_induct)
  case (less q)
  show ?case
  proof (cases "q = 0")
    case True
    then show ?thesis
      by (subst act_on_all_ancestors_leafup.simps) (simp add: chain_value_0 monoid_opD [OF m])
  next
    case False
    then have fg: "functor_get g q res = Some (combine (op g) res (heap g q))"
      using less.prems by (simp add: functor_get_def heap_get_def in_block_def)
    have "act_on_all_ancestors_leafup (q div 2) (functor_get g) (combine (op g) res (heap g q))
        = Some (combine (op g) (combine (op g) res (heap g q)) (chain_value g (q div 2)))"
      by (rule less.IH) (use False less.prems in simp_all)
    then show ?thesis using False fg
      by (subst act_on_all_ancestors_leafup.simps)
         (simp add: index_parent_def chain_value_pos monoid_opD [OF m])
  qed
qed

lemma gutter_apply_subscript_chain:
  assumes "monoid_op (op g)" "leaf_no < gsize g"
  shows "gutter_apply_subscript g leaf_no = Some (chain_value g (index_nth_leaf (gsize g) leaf_no))"
proof -
  have "index_nth_leaf (gsize g) leaf_no < 2 * gsize g"
    using index_nth_leaf_range [of "gsize g" leaf_no] assms(2) by simp
  then show ?thesis
    unfolding gutter_apply_subscript_def act_on_all_ancestors_def
    by (simp add: leafup_get [OF assms(1)] monoid_opD [OF assms(1)])
qed

lemma consolidate_to_children_eq:
  assumes "1 \<le> v" "v < gsize g"
  shows "consolidate_to_children v g =
    Some (g\<lparr>heap := (heap g)
      (2 * v := combine (op g) (heap g (2 * v)) (heap g v),
       2 * v + 1 := combine (op g) (heap g (2 * v + 1)) (heap g v),
       v := identity (op g))\<rparr>)"
  using assms
  by (simp add: consolidate_to_children_def heap_get_def heap_set_def in_block_def
      index_lbranch_def index_rbranch_def)

lemma chain_value_consolidate:
  assumes m: "monoid_op (op g)" and v: "1 \<le> v"
    and g': "g' = g\<lparr>heap := (heap g)
      (2 * v := combine (op g) (heap g (2 * v)) (heap g v),
       2 * v + 1 := combine (op g) (heap g (2 * v + 1)) (heap g v),
       v := identity (op g))\<rparr>"
  shows "q \<noteq> v \<Longrightarrow> chain_value g' q = chain_value g q"
proof (induction q rule: less_induct)
  case (less q)
  have opg: "op g' = op g" by (simp add: g')
  show ?case
  proof (cases "q = 0")
    case True
    then show ?thesis by (simp add: chain_value_0 opg)
  next
    case q0: False
    show ?thesis
    proof (cases "q div 2 = v")
      case True
      then have q: "q = 2 * v \<or> q = 2 * v + 1" by presburger
      have hq: "heap g' q = combine (op g) (heap g q) (heap g v)"
        using q v by (auto simp: g')
      have hv: "heap g' v = identity (op g)" by (simp add: g')
      have "chain_value g' (v div 2) = chain_value g (v div 2)"
        by (rule less.IH) (use v True q0 in simp_all)
      then have "chain_value g' v = chain_value g (v div 2)"
        using v by (simp add: chain_value_pos [of v] hv opg monoid_opD [OF m])
      then have "chain_value g' q
          = combine (op g) (combine (op g) (heap g q) (heap g v)) (chain_value g (v div 2))"
        using q0 True by (simp add: chain_value_pos [of q] hq opg)
      also have "\<dots> = combine (op g) (heap g q) (chain_value g v)"
        using v by (simp add: chain_value_pos [of v] monoid_opD [OF m])
      also have "\<dots> = chain_value g q"
        using q0 True by (simp add: chain_value_pos [of q])
      finally show ?thesis .
    next
      case False
      then have "q \<noteq> 2 * v \<and> q \<noteq> 2 * v + 1" by presburger
      then have hq: "heap g' q = heap g q" using less.prems by (simp add: g')
      have "chain_value g' (q div 2) = chain_value g (q div 2)"
        by (rule less.IH) (use False q0 in simp_all)
      then show ?thesis using q0 by (simp add: chain_value_pos [of q] hq opg)
    qed
  qed
qed

lemma chain_value_cong:
  assumes "op g' = op g"
  shows "(\<And>p. 1 \<le> p \<Longrightarrow> p \<le> q \<Longrightarrow> heap g' p = heap g p) \<Longrightarrow> chain_value g' q = chain_value g q"
proof (induction q rule: less_induct)
  case (less q)
  show ?case
  proof (cases "q = 0")
    case True
    then show ?thesis by (simp add: chain_value_0 assms)
  next
    case False
    have "chain_value g' (q div 2) = chain_value g (q div 2)"
      by (rule less.IH) (use False less.prems in simp_all)
    moreover have "heap g' q = heap g q" using less.prems [of q] False by simp
    ultimately show ?thesis using False by (simp add: chain_value_pos [of q] assms)
  qed
qed

lemma chain_value_update_other_leaf:
  assumes "q \<noteq> c" "q div 2 < c" and g': "g' = g\<lparr>heap := (heap g)(c := y)\<rparr>"
  shows "chain_value g' q = chain_value g q"
proof (cases "q = 0")
  case True
  then show ?thesis by (simp add: chain_value_0 g')
next
  case False
  have "chain_value g' (q div 2) = chain_value g (q div 2)"
    by (rule chain_value_cong) (use assms in simp_all)
  moreover have "heap g' q = heap g q" "op g' = op g" using assms by simp_all
  ultimately show ?thesis using False by (simp add: chain_value_pos [of q])
qed

lemma index_ancestor_in_row_bounds:
  "1 \<le> row_1st \<Longrightarrow> row_1st \<le> index \<Longrightarrow>
   \<exists>a. index_ancestor_in_row index row_1st = Some a \<and> row_1st \<le> a \<and> a \<le> index"
proof (induction index rule: less_induct)
  case (less index)
  show ?case
  proof (cases "row_1st \<le> index div 2")
    case True
    have "\<exists>a. index_ancestor_in_row (index div 2) row_1st = Some a \<and> row_1st \<le> a \<and> a \<le> index div 2"
      by (rule less.IH) (use True less.prems in simp_all)
    then obtain a where "index_ancestor_in_row (index div 2) row_1st = Some a" "row_1st \<le> a" "a \<le> index div 2"
      by blast
    then show ?thesis using True
      by (subst index_ancestor_in_row.simps) (simp add: index_parent_def)
  next
    case False
    then show ?thesis using less.prems
      by (subst index_ancestor_in_row.simps) (simp add: index_parent_def)
  qed
qed

text \<open>
  Consolidation with the member \<^verbatim>\<open>consolidate_to_children\<close> along a walk from the root down
  keeps what is read at every index below.
\<close>

lemma rootdown_loop_consolidate:
  assumes m: "monoid_op (op g)"
  shows "1 \<le> i \<Longrightarrow> index < gsize g \<Longrightarrow>
    \<exists>g'. rootdown_loop i index consolidate_to_children g = Some g' \<and> gsize g' = gsize g \<and> op g' = op g
       \<and> (\<forall>q. index < q \<longrightarrow> chain_value g' q = chain_value g q)"
  using m
proof (induction "index - i" arbitrary: i g rule: less_induct)
  case less
  note m = less.prems(3)
  show ?case
  proof (cases "i < index")
    case False
    then show ?thesis by (subst rootdown_loop.simps) simp
  next
    case True
    obtain a where a: "index_ancestor_in_row index i = Some a" "i \<le> a" "a \<le> index"
      using index_ancestor_in_row_bounds [of i index] True less.prems(1) by auto
    define g1 where "g1 = g\<lparr>heap := (heap g)
      (2 * a := combine (op g) (heap g (2 * a)) (heap g a),
       2 * a + 1 := combine (op g) (heap g (2 * a + 1)) (heap g a),
       a := identity (op g))\<rparr>"
    have c: "consolidate_to_children a g = Some g1"
      unfolding g1_def
      by (rule consolidate_to_children_eq) (use a less.prems in simp_all)
    have g1: "gsize g1 = gsize g" "op g1 = op g" by (simp_all add: g1_def)
    have keep1: "chain_value g1 q = chain_value g q" if "index < q" for q
      by (rule chain_value_consolidate [OF m _ g1_def]) (use a less.prems that in simp_all)
    have "\<exists>g'. rootdown_loop (i * 2) index consolidate_to_children g1 = Some g' \<and> gsize g' = gsize g1
        \<and> op g' = op g1 \<and> (\<forall>q. index < q \<longrightarrow> chain_value g' q = chain_value g1 q)"
      by (rule less.hyps) (use True less.prems g1 in simp_all)
    then obtain g' where g': "rootdown_loop (i * 2) index consolidate_to_children g1 = Some g'"
      "gsize g' = gsize g1" "op g' = op g1" "\<forall>q. index < q \<longrightarrow> chain_value g' q = chain_value g1 q"
      by blast
    have "rootdown_loop i index consolidate_to_children g = Some g'"
      using True a(1) c g'(1) by (subst rootdown_loop.simps) simp
    then show ?thesis using g' g1 keep1 by simp
  qed
qed

text \<open>
  The walk of \<^verbatim>\<open>assign\<close>, from the root down to the parent of the leaf cell of \<open>i\<close>, with the
  member \<^verbatim>\<open>consolidate_to_children\<close> as the function object (the member that the loop left in
  a comment in \<^verbatim>\<open>assign\<close> calls): it returns, and after it and the write to the leaf cell of
  \<open>i\<close> the cells from the leaf cell of any other leaf \<open>j\<close> up to the root combine to what they
  combined to before.
\<close>

lemma consolidate_to_children_keeps_other_leaves:
  assumes "monoid_op (op g)" "i < gsize g" "j < gsize g" "j \<noteq> i"
  shows "\<exists>g1. act_on_all_ancestors_rootdown (index_parent (index_nth_leaf (gsize g) i))
               consolidate_to_children g = Some g1
           \<and> gsize g1 = gsize g \<and> op g1 = op g
           \<and> chain_value (g1\<lparr>heap := (heap g1)(index_nth_leaf (gsize g) i :=
                  combine (op g1) (heap g1 (index_nth_leaf (gsize g) i)) x)\<rparr>)
                (index_nth_leaf (gsize g) j)
              = chain_value g (index_nth_leaf (gsize g) j)"
proof -
  let ?n = "gsize g"
  have n: "1 \<le> ?n" using assms(2) by simp
  define li where "li = index_nth_leaf ?n i"
  define lj where "lj = index_nth_leaf ?n j"
  have li: "?n \<le> li" "li < 2 * ?n" using index_nth_leaf_range [OF n assms(2)] by (simp_all add: li_def)
  have lj: "?n \<le> lj" "lj < 2 * ?n" using index_nth_leaf_range [OF n assms(3)] by (simp_all add: lj_def)
  have ne: "lj \<noteq> li" using index_nth_leaf_inj [OF n assms(3,2)] assms(4) by (auto simp: li_def lj_def)
  have "\<exists>g'. rootdown_loop 1 (index_parent li) consolidate_to_children g = Some g' \<and> gsize g' = gsize g
      \<and> op g' = op g \<and> (\<forall>q. index_parent li < q \<longrightarrow> chain_value g' q = chain_value g q)"
    by (rule rootdown_loop_consolidate [OF assms(1)]) (use li in \<open>simp_all add: index_parent_def\<close>)
  then obtain g1 where g1: "rootdown_loop 1 (index_parent li) consolidate_to_children g = Some g1"
    "gsize g1 = gsize g" "op g1 = op g" "\<forall>q. index_parent li < q \<longrightarrow> chain_value g1 q = chain_value g q"
    by blast
  define g2 where "g2 = g1\<lparr>heap := (heap g1)(li := combine (op g1) (heap g1 li) x)\<rparr>"
  have "chain_value g2 lj = chain_value g1 lj"
    by (rule chain_value_update_other_leaf [OF _ _ g2_def]) (use ne li lj in simp_all)
  also have "\<dots> = chain_value g lj"
    using g1(4) li lj by (simp add: index_parent_def)
  finally have cv: "chain_value g2 lj = chain_value g lj" .
  show ?thesis
    using g1(1,2,3) cv
    by (simp add: act_on_all_ancestors_rootdown_def li_def [symmetric] lj_def [symmetric] g2_def)
qed

text \<open>
  \<^verbatim>\<open>assign\<close> as it is written hands \<^verbatim>\<open>functor_consolidate\<close> to the walk. Where the walk makes a
  call, which it does as soon as the parent of the leaf cell is below the root, \<^verbatim>\<open>assign\<close>
  has no result.
\<close>

lemma gutter_apply_assign_no_result:
  assumes "1 < index_parent (index_nth_leaf (gsize g) i)"
  shows "gutter_apply_assign g i x = None"
proof -
  have "rootdown_loop 1 (index_parent (index_nth_leaf (gsize g) i)) functor_consolidate g = None"
    using assms
    by (subst rootdown_loop.simps) (simp add: functor_consolidate_def split: option.splits)
  then show ?thesis by (simp add: gutter_apply_assign_def act_on_all_ancestors_rootdown_def)
qed

text \<open>
  C10: \<^verbatim>\<open>gutter_apply\<close> with three leaves and the sum, freshly constructed: \<^verbatim>\<open>operator[]\<close>
  returns 0 at the leaves 0 and 1, and \<^verbatim>\<open>assign(0, 5)\<close>, whose walk calls
  \<^verbatim>\<open>functor_consolidate\<close> at the root, has no result, so that there is no value of
  \<^verbatim>\<open>operator[](1)\<close> after it.
\<close>

theorem assign_has_no_result:
  "Option.bind (gutter_apply_new (\<lambda>i. 0) 3 add) (\<lambda>g.
     Some (gutter_apply_subscript g 0, gutter_apply_subscript g 1,
           Option.is_none (gutter_apply_assign g 0 5)))
   = Some (Some 0, Some 0, True)"
  by code_simp

lemma on_path_0: "\<not> on_path v 0"
  by (subst on_path.simps) simp

lemma on_path_pos: "q \<noteq> 0 \<Longrightarrow> on_path v q = (q = v \<or> on_path v (q div 2))"
  by (subst on_path.simps) (simp add: index_parent_def)

lemma on_path_self: "1 \<le> v \<Longrightarrow> on_path v v"
  by (subst on_path.simps) simp

lemma on_path_le: "on_path v q \<Longrightarrow> v \<le> q"
proof (induction q rule: less_induct)
  case (less q)
  show ?case
  proof (cases "q = 0")
    case True
    with less.prems show ?thesis by (simp add: on_path_0)
  next
    case False
    with less.prems have "q = v \<or> on_path v (q div 2)" by (simp add: on_path_pos)
    then show ?thesis
    proof
      assume "q = v" then show ?thesis by simp
    next
      assume "on_path v (q div 2)"
      then have "v \<le> q div 2" by (rule less.IH [rotated]) (use False in simp)
      then show ?thesis by simp
    qed
  qed
qed

lemma on_path_children:
  assumes v: "1 \<le> v"
  shows "q \<noteq> v \<Longrightarrow> on_path v q = (on_path (2 * v) q \<or> on_path (2 * v + 1) q)"
proof (induction q rule: less_induct)
  case (less q)
  show ?case
  proof (cases "q = 0")
    case True
    then show ?thesis by (simp add: on_path_0)
  next
    case q0: False
    show ?thesis
    proof (cases "q div 2 = v")
      case True
      then have q: "q = 2 * v \<or> q = 2 * v + 1" by presburger
      have "on_path v (q div 2)" using True v by (simp add: on_path_pos [of v v])
      then have l: "on_path v q" using q0 by (simp add: on_path_pos [of q])
      have "on_path (2 * v) q \<or> on_path (2 * v + 1) q"
        using q q0 by (auto simp: on_path_pos [of q])
      with l show ?thesis by simp
    next
      case False
      then have nq: "q \<noteq> 2 * v" "q \<noteq> 2 * v + 1" by presburger+
      have "on_path v (q div 2) = (on_path (2 * v) (q div 2) \<or> on_path (2 * v + 1) (q div 2))"
        by (rule less.IH) (use False q0 in simp_all)
      then show ?thesis using q0 nq less.prems by (simp add: on_path_pos [of q])
    qed
  qed
qed

lemma on_path_not_both:
  assumes v: "1 \<le> v"
  shows "\<not> (on_path (2 * v) q \<and> on_path (2 * v + 1) q)"
proof (induction q rule: less_induct)
  case (less q)
  show ?case
  proof (cases "q = 0")
    case True
    then show ?thesis by (simp add: on_path_0)
  next
    case q0: False
    have ih: "\<not> (on_path (2 * v) (q div 2) \<and> on_path (2 * v + 1) (q div 2))"
      by (rule less.IH) (use q0 in simp)
    show ?thesis
    proof (cases "q = 2 * v")
      case True
      have "\<not> on_path (2 * v + 1) q" using on_path_le [of "2 * v + 1" q] True by auto
      then show ?thesis by simp
    next
      case n1: False
      show ?thesis
      proof (cases "q = 2 * v + 1")
        case True
        then have "q div 2 = v" by simp
        then have "\<not> on_path (2 * v) (q div 2)" using on_path_le [of "2 * v" v] v by auto
        moreover have "on_path (2 * v) q = (q = 2 * v \<or> on_path (2 * v) (q div 2))"
          by (rule on_path_pos [OF q0])
        ultimately have "\<not> on_path (2 * v) q" using n1 by simp
        then show ?thesis by simp
      next
        case n2: False
        with n1 q0 ih show ?thesis by (simp add: on_path_pos [of q])
      qed
    qed
  qed
qed

lemma leaf_cells_count:
  assumes q: "n \<le> q" "q < 2 * n"
  shows "1 \<le> v \<Longrightarrow> v < 2 * n \<Longrightarrow> count (mset (leaf_cells n v)) q = (if on_path v q then 1 else 0)"
proof (induction "2 * n - v" arbitrary: v rule: less_induct)
  case less
  show ?case
  proof (cases "v < n")
    case True
    have l: "count (mset (leaf_cells n (2 * v))) q = (if on_path (2 * v) q then 1 else 0)"
      by (rule less.hyps) (use True less.prems in simp_all)
    have r: "count (mset (leaf_cells n (2 * v + 1))) q = (if on_path (2 * v + 1) q then 1 else 0)"
      by (rule less.hyps) (use True less.prems in simp_all)
    have "leaf_cells n v = leaf_cells n (2 * v) @ leaf_cells n (2 * v + 1)"
      using True less.prems by (subst leaf_cells.simps) (simp add: index_lbranch_def index_rbranch_def)
    moreover have "on_path v q = (on_path (2 * v) q \<or> on_path (2 * v + 1) q)"
      by (rule on_path_children) (use True q less.prems in simp_all)
    moreover have "\<not> (on_path (2 * v) q \<and> on_path (2 * v + 1) q)"
      by (rule on_path_not_both) (use less.prems in simp)
    ultimately show ?thesis using l r by auto
  next
    case False
    then have lc: "leaf_cells n v = [v]" using less.prems by (subst leaf_cells.simps) simp
    have "on_path v q = (q = v)"
    proof (cases "q = v")
      case True
      then show ?thesis using less.prems on_path_self [of v] by simp
    next
      case ne: False
      have "\<not> on_path v (q div 2)" using on_path_le [of v "q div 2"] False q by auto
      then show ?thesis using ne q by (simp add: on_path_pos [of q])
    qed
    then show ?thesis using lc by auto
  qed
qed

lemma cells_of_count:
  assumes q: "n \<le> q" "q < 2 * n"
  shows "(\<And>v. v \<in> set ns \<Longrightarrow> 1 \<le> v \<and> v < 2 * n) \<Longrightarrow>
     count (cells_of n ns) q = length (filter (\<lambda>v. on_path v q) ns)"
proof (induction ns)
  case Nil
  then show ?case by (simp add: cells_of_simps)
next
  case (Cons v ns)
  have "count (mset (leaf_cells n v)) q = (if on_path v q then 1 else 0)"
    by (rule leaf_cells_count [OF q]) (use Cons.prems [of v] in simp_all)
  moreover have "count (cells_of n ns) q = length (filter (\<lambda>v. on_path v q) ns)"
    by (rule Cons.IH) (use Cons.prems in simp)
  ultimately show ?case by (simp add: cells_of_simps)
qed

lemma count_leaves:
  assumes n: "1 \<le> n" and i: "i < n"
  shows "(\<And>k. k \<in> set ks \<Longrightarrow> k < n) \<Longrightarrow>
     count (mset (map (index_nth_leaf n) ks)) (index_nth_leaf n i) = count (mset ks) i"
proof (induction ks)
  case Nil
  then show ?case by simp
next
  case (Cons k ks)
  have "k < n" using Cons.prems [of k] by simp
  then have "(index_nth_leaf n k = index_nth_leaf n i) = (k = i)"
    using index_nth_leaf_inj [OF n _ i] by auto
  moreover have "count (mset (map (index_nth_leaf n) ks)) (index_nth_leaf n i) = count (mset ks) i"
    by (rule Cons.IH) (use Cons.prems in simp)
  ultimately show ?case by simp
qed

lemma covering_nodes_on_path:
  assumes n: "1 \<le> n" and r: "i1 < i2" "i2 \<le> n" and i: "i < n"
  shows "length (filter (\<lambda>v. on_path v (index_nth_leaf n i)) (covering_nodes n i1 i2))
       = (if i1 \<le> i \<and> i < i2 then 1 else 0)"
proof -
  have q: "n \<le> index_nth_leaf n i" "index_nth_leaf n i < 2 * n"
    using index_nth_leaf_range [OF n i] by simp_all
  have "length (filter (\<lambda>v. on_path v (index_nth_leaf n i)) (covering_nodes n i1 i2))
      = count (cells_of n (covering_nodes n i1 i2)) (index_nth_leaf n i)"
    by (rule cells_of_count [OF q, symmetric]) (rule covering_nodes_bounds [OF n r])
  also have "\<dots> = count (mset (map (index_nth_leaf n) [i1..<i2])) (index_nth_leaf n i)"
    by (simp only: covering_nodes_cells [OF n r])
  also have "\<dots> = count (mset [i1..<i2]) i"
    by (rule count_leaves [OF n i]) (use r in simp)
  also have "\<dots> = (if i1 \<le> i \<and> i < i2 then 1 else 0)"
    by (simp add: count_mset count_list_0_iff distinct_count_atmost_1 [THEN iffD1])
  finally show ?thesis .
qed

lemma commutative_opD: "commutative_op f \<Longrightarrow> combine f a b = combine f b a"
  by (simp add: commutative_op_def)

lemma combine_right_commute:
  assumes "monoid_op f" "commutative_op f"
  shows "combine f (combine f a x) r = combine f (combine f a r) x"
proof -
  have "combine f (combine f a x) r = combine f a (combine f x r)"
    by (rule monoid_opD(1) [OF assms(1)])
  also have "combine f x r = combine f r x" by (rule commutative_opD [OF assms(2)])
  also have "combine f a (combine f r x) = combine f (combine f a r) x"
    by (rule monoid_opD(1) [OF assms(1), symmetric])
  finally show ?thesis .
qed

lemma chain_value_apply_node:
  assumes m: "monoid_op (op g)" and c: "commutative_op (op g)" and v: "1 \<le> v"
    and g': "g' = g\<lparr>heap := (heap g)(v := combine (op g) (heap g v) x)\<rparr>"
  shows "chain_value g' q = (if on_path v q then combine (op g) (chain_value g q) x else chain_value g q)"
proof (induction q rule: less_induct)
  case (less q)
  have opg: "op g' = op g" by (simp add: g')
  show ?case
  proof (cases "q = 0")
    case True
    then show ?thesis by (simp add: chain_value_0 on_path_0 opg)
  next
    case q0: False
    have ih: "chain_value g' (q div 2)
        = (if on_path v (q div 2) then combine (op g) (chain_value g (q div 2)) x
           else chain_value g (q div 2))"
      by (rule less.IH) (use q0 in simp)
    show ?thesis
    proof (cases "q = v")
      case True
      have "\<not> on_path v (q div 2)" using on_path_le [of v "q div 2"] True v by auto
      with ih have r: "chain_value g' (q div 2) = chain_value g (q div 2)" by simp
      have hv: "heap g' q = combine (op g) (heap g q) x" using True by (simp add: g')
      have "chain_value g' q = combine (op g) (combine (op g) (heap g q) x) (chain_value g (q div 2))"
        using q0 by (simp add: chain_value_pos [of q] hv r opg)
      also have "\<dots> = combine (op g) (combine (op g) (heap g q) (chain_value g (q div 2))) x"
        by (rule combine_right_commute [OF m c])
      also have "\<dots> = combine (op g) (chain_value g q) x"
        using q0 by (simp add: chain_value_pos [of q])
      finally show ?thesis using True v on_path_self [of v] by simp
    next
      case False
      then have hq: "heap g' q = heap g q" by (simp add: g')
      have p: "on_path v q = on_path v (q div 2)" using q0 False by (simp add: on_path_pos [of q])
      show ?thesis
      proof (cases "on_path v (q div 2)")
        case True
        with ih have "chain_value g' q
            = combine (op g) (heap g q) (combine (op g) (chain_value g (q div 2)) x)"
          using q0 by (simp add: chain_value_pos [of q] hq opg)
        also have "\<dots> = combine (op g) (combine (op g) (heap g q) (chain_value g (q div 2))) x"
          by (rule monoid_opD(1) [OF m, symmetric])
        also have "\<dots> = combine (op g) (chain_value g q) x"
          using q0 by (simp add: chain_value_pos [of q])
        finally show ?thesis using True p by simp
      next
        case nf: False
        with ih have "chain_value g' q = chain_value g q"
          using q0 by (simp add: chain_value_pos [of q] hq opg)
        then show ?thesis using nf p by simp
      qed
    qed
  qed
qed

lemma visit_apply_chain:
  "monoid_op (op g) \<Longrightarrow> commutative_op (op g) \<Longrightarrow>
   (\<And>v. v \<in> set ns \<Longrightarrow> 1 \<le> v \<and> v < 2 * gsize g) \<Longrightarrow>
   \<exists>g'. visit (functor_apply x) ns g = Some g' \<and> gsize g' = gsize g \<and> op g' = op g
      \<and> (\<forall>q. chain_value g' q
            = ((\<lambda>a. combine (op g) a x) ^^ length (filter (\<lambda>v. on_path v q) ns)) (chain_value g q))"
proof (induction ns arbitrary: g)
  case Nil
  then show ?case by simp
next
  case (Cons v ns)
  define g1 where "g1 = g\<lparr>heap := (heap g)(v := combine (op g) (heap g v) x)\<rparr>"
  have vb: "1 \<le> v \<and> v < 2 * gsize g" using Cons.prems(3) [of v] by simp
  then have f: "functor_apply x v g = Some g1"
    by (simp add: functor_apply_def heap_get_def heap_set_def in_block_def g1_def)
  have g1: "gsize g1 = gsize g" "op g1 = op g" by (simp_all add: g1_def)
  have c1: "chain_value g1 q
      = (if on_path v q then combine (op g) (chain_value g q) x else chain_value g q)" for q
    by (rule chain_value_apply_node [OF Cons.prems(1,2) _ g1_def]) (use vb in simp)
  have "\<exists>g'. visit (functor_apply x) ns g1 = Some g' \<and> gsize g' = gsize g1 \<and> op g' = op g1
      \<and> (\<forall>q. chain_value g' q
            = ((\<lambda>a. combine (op g1) a x) ^^ length (filter (\<lambda>v. on_path v q) ns)) (chain_value g1 q))"
    by (rule Cons.IH) (use Cons.prems g1 in simp_all)
  then obtain g' where g': "visit (functor_apply x) ns g1 = Some g'" "gsize g' = gsize g1"
    "op g' = op g1"
    "\<And>q. chain_value g' q
        = ((\<lambda>a. combine (op g1) a x) ^^ length (filter (\<lambda>v. on_path v q) ns)) (chain_value g1 q)"
    by blast
  have "chain_value g' q
      = ((\<lambda>a. combine (op g) a x) ^^ length (filter (\<lambda>v. on_path v q) (v # ns))) (chain_value g q)" for q
  proof -
    have sw: "((\<lambda>a. combine (op g) a x) ^^ k) (combine (op g) c x)
        = combine (op g) (((\<lambda>a. combine (op g) a x) ^^ k) c) x" for k c
      using funpow_swap1 [of "\<lambda>a. combine (op g) a x" k c] by simp
    show ?thesis unfolding g'(4) [of q] c1 [of q] g1(2) by (simp add: sw)
  qed
  then show ?case using f g' g1 by simp
qed

lemma apply_range_chain:
  assumes m: "monoid_op (op g)" and c: "commutative_op (op g)"
    and i: "i < gsize g" and r: "i1 \<le> i2" "i2 \<le> gsize g"
  shows "\<exists>g'. gutter_apply_apply_range g i1 i2 x = Some g' \<and> gsize g' = gsize g \<and> op g' = op g
      \<and> chain_value g' (index_nth_leaf (gsize g) i)
          = (if i1 \<le> i \<and> i < i2 then combine (op g) (chain_value g (index_nth_leaf (gsize g) i)) x
             else chain_value g (index_nth_leaf (gsize g) i))"
proof (cases "i1 = i2")
  case True
  then have "gutter_apply_apply_range g i1 i2 x = Some g"
    by (simp add: gutter_apply_apply_range_def act_on_min_covering_ancestors_def)
  moreover have "\<not> (i1 \<le> i \<and> i < i2)" using True by linarith
  ultimately show ?thesis by auto
next
  case False
  let ?n = "gsize g"
  have n: "1 \<le> ?n" using i by simp
  have lt: "i1 < i2" using False r by simp
  have v: "gutter_apply_apply_range g i1 i2 x = visit (functor_apply x) (covering_nodes ?n i1 i2) g"
    unfolding gutter_apply_apply_range_def
    by (rule act_on_min_covering_ancestors_visit [OF n lt r(2)])
  have "\<exists>g'. visit (functor_apply x) (covering_nodes ?n i1 i2) g = Some g' \<and> gsize g' = gsize g
      \<and> op g' = op g
      \<and> (\<forall>q. chain_value g' q
            = ((\<lambda>a. combine (op g) a x) ^^ length (filter (\<lambda>v. on_path v q) (covering_nodes ?n i1 i2)))
                (chain_value g q))"
    by (rule visit_apply_chain [OF m c]) (rule covering_nodes_bounds [OF n lt r(2)])
  then obtain g' where g': "visit (functor_apply x) (covering_nodes ?n i1 i2) g = Some g'"
    "gsize g' = gsize g" "op g' = op g"
    "\<And>q. chain_value g' q
        = ((\<lambda>a. combine (op g) a x) ^^ length (filter (\<lambda>v. on_path v q) (covering_nodes ?n i1 i2)))
            (chain_value g q)"
    by blast
  have "chain_value g' (index_nth_leaf ?n i)
      = (if i1 \<le> i \<and> i < i2 then combine (op g) (chain_value g (index_nth_leaf ?n i)) x
         else chain_value g (index_nth_leaf ?n i))"
    unfolding g'(4) covering_nodes_on_path [OF n lt r(2) i] by simp
  then show ?thesis using v g' by simp
qed

lemma apply_ranges_chain:
  "monoid_op (op g) \<Longrightarrow> commutative_op (op g) \<Longrightarrow> i < gsize g \<Longrightarrow>
   (\<And>i1 i2 x. (i1, i2, x) \<in> set calls \<Longrightarrow> i1 \<le> i2 \<and> i2 \<le> gsize g) \<Longrightarrow>
   \<exists>g'. apply_ranges g calls = Some g' \<and> gsize g' = gsize g \<and> op g' = op g
      \<and> chain_value g' (index_nth_leaf (gsize g) i)
          = foldl (combine (op g)) (chain_value g (index_nth_leaf (gsize g) i)) (values_at calls i)"
proof (induction calls arbitrary: g)
  case Nil
  then show ?case by (simp add: values_at_def)
next
  case (Cons call calls)
  obtain i1 i2 x where call: "call = (i1, i2, x)" by (cases call) auto
  have r: "i1 \<le> i2 \<and> i2 \<le> gsize g" using Cons.prems(4) [of i1 i2 x] call by simp
  have "\<exists>g'. gutter_apply_apply_range g i1 i2 x = Some g' \<and> gsize g' = gsize g \<and> op g' = op g
      \<and> chain_value g' (index_nth_leaf (gsize g) i)
          = (if i1 \<le> i \<and> i < i2 then combine (op g) (chain_value g (index_nth_leaf (gsize g) i)) x
             else chain_value g (index_nth_leaf (gsize g) i))"
    by (rule apply_range_chain) (use Cons.prems r in simp_all)
  then obtain g1 where g1: "gutter_apply_apply_range g i1 i2 x = Some g1" "gsize g1 = gsize g"
    "op g1 = op g"
    "chain_value g1 (index_nth_leaf (gsize g) i)
      = (if i1 \<le> i \<and> i < i2 then combine (op g) (chain_value g (index_nth_leaf (gsize g) i)) x
         else chain_value g (index_nth_leaf (gsize g) i))"
    by blast
  have "\<exists>g'. apply_ranges g1 calls = Some g' \<and> gsize g' = gsize g1 \<and> op g' = op g1
      \<and> chain_value g' (index_nth_leaf (gsize g1) i)
          = foldl (combine (op g1)) (chain_value g1 (index_nth_leaf (gsize g1) i)) (values_at calls i)"
    by (rule Cons.IH) (use Cons.prems g1 in auto)
  then obtain g' where g': "apply_ranges g1 calls = Some g'" "gsize g' = gsize g1" "op g' = op g1"
    "chain_value g' (index_nth_leaf (gsize g1) i)
      = foldl (combine (op g1)) (chain_value g1 (index_nth_leaf (gsize g1) i)) (values_at calls i)"
    by blast
  have "chain_value g' (index_nth_leaf (gsize g) i)
      = foldl (combine (op g)) (chain_value g (index_nth_leaf (gsize g) i)) (values_at (call # calls) i)"
    using g'(4) unfolding g1(2,3,4) call by (simp add: values_at_def)
  then show ?case using g1 g' call by simp
qed

lemma chain_value_identity:
  assumes "monoid_op (op g)"
  shows "(\<And>p. 1 \<le> p \<Longrightarrow> p \<le> q \<Longrightarrow> heap g p = identity (op g)) \<Longrightarrow> chain_value g q = identity (op g)"
proof (induction q rule: less_induct)
  case (less q)
  show ?case
  proof (cases "q = 0")
    case True
    then show ?thesis by (simp add: chain_value_0)
  next
    case False
    have "chain_value g (q div 2) = identity (op g)"
      by (rule less.IH) (use False less.prems in simp_all)
    moreover have "heap g q = identity (op g)" using less.prems [of q] False by simp
    ultimately show ?thesis using False by (simp add: chain_value_pos [of q] monoid_opD [OF assms])
  qed
qed

text \<open>
  C2, as amended: for \<^verbatim>\<open>gutter_apply\<close> over an associative and commutative operation with
  a neutral element on both sides, for every leaf \<open>i < n\<close> and every sequence of calls
  \<^verbatim>\<open>apply(i1, i2, x)\<close> with \<open>i1 \<le> i2 \<le> n\<close> on a freshly constructed tree, every call
  returns and \<^verbatim>\<open>operator[](i)\<close> then returns the fold of \<^verbatim>\<open>op\<close>, from \<^verbatim>\<open>op()\<close>, over the
  values \<open>x\<close> of the calls whose interval contains \<open>i\<close>, in the order of the calls.
\<close>

theorem read_after_range_applies:
  assumes "monoid_op f" "commutative_op f" "i < n"
    and "\<forall>(i1, i2, x) \<in> set calls. i1 \<le> i2 \<and> i2 \<le> n"
  shows "Option.bind (gutter_apply_new mem n f) (\<lambda>g0.
         Option.bind (apply_ranges g0 calls) (\<lambda>g. gutter_apply_subscript g i))
       = Some (foldl (combine f) (identity f) (values_at calls i))"
proof -
  define g0 where "g0 = fill \<lparr>heap = mem, gsize = n, op = f\<rparr>"
  have new: "gutter_apply_new mem n f = Some g0"
    using assms(3) by (simp add: gutter_apply_new_def gutter_base_new_def g0_def)
  have g0: "gsize g0 = n" "op g0 = f" by (simp_all add: g0_def fill_def)
  have leaf: "index_nth_leaf n i < 2 * n" using index_nth_leaf_range [of n i] assms(3) by simp
  have "chain_value g0 (index_nth_leaf n i) = identity (op g0)"
    by (rule chain_value_identity) (use assms(1) g0 leaf in \<open>simp_all add: g0_def fill_def in_block_def\<close>)
  then have c0: "chain_value g0 (index_nth_leaf n i) = identity f" using g0 by simp
  have "\<exists>g'. apply_ranges g0 calls = Some g' \<and> gsize g' = gsize g0 \<and> op g' = op g0
      \<and> chain_value g' (index_nth_leaf (gsize g0) i)
          = foldl (combine (op g0)) (chain_value g0 (index_nth_leaf (gsize g0) i)) (values_at calls i)"
    by (rule apply_ranges_chain) (use assms g0 in auto)
  then obtain g where g: "apply_ranges g0 calls = Some g" "gsize g = n" "op g = f"
    "chain_value g (index_nth_leaf n i) = foldl (combine f) (identity f) (values_at calls i)"
    using g0 c0 by auto
  have "gutter_apply_subscript g i = Some (chain_value g (index_nth_leaf (gsize g) i))"
    by (rule gutter_apply_subscript_chain) (use assms g in simp_all)
  then show ?thesis using new g by simp
qed

theorem read_after_range_applies_witness:
  "monoid_op add \<and> commutative_op add \<and> (1::nat) < 5
   \<and> Option.bind (gutter_apply_new (\<lambda>i. 0) 5 add) (\<lambda>g0.
      Option.bind (apply_ranges g0 [(1, 4, 10), (0, 2, 5)]) (\<lambda>g. gutter_apply_subscript g 1))
      = Some 15"
  using read_after_range_applies [of add 1 5 "[(1, 4, 10), (0, 2, 5)]" "\<lambda>i. 0"]
  by (simp add: monoid_op_def commutative_op_def add_def values_at_def)

text \<open>
  C2 as the spec has it, for every associative operation with a neutral element, fails
  where the operation is not commutative: a value applied to a node nearer the root is
  combined after the values below it, whenever it was applied. With concatenation, on
  two leaves, \<^verbatim>\<open>apply(0, 2, "a")\<close> then \<^verbatim>\<open>apply(0, 1, "b")\<close> makes \<^verbatim>\<open>operator[](0)\<close> return
  \<^verbatim>\<open>"ba"\<close>, and the fold in the order of the calls is \<^verbatim>\<open>"ab"\<close>.
\<close>

theorem read_after_range_applies_not_in_call_order:
  "monoid_op concat_op
   \<and> Option.bind (gutter_apply_new (\<lambda>i. []) 2 concat_op) (\<lambda>g0.
      Option.bind (apply_ranges g0 [(0, 2, ''a''), (0, 1, ''b'')]) (\<lambda>g. gutter_apply_subscript g 0))
      = Some ''ba''
   \<and> foldl (combine concat_op) (identity concat_op) (values_at [(0, 2, ''a''), (0, 1, ''b'')] 0) = ''ab''"
proof -
  have "monoid_op concat_op" by (simp add: monoid_op_def concat_op_def)
  moreover have "Option.bind (gutter_apply_new (\<lambda>i. []) 2 concat_op) (\<lambda>g0.
      Option.bind (apply_ranges g0 [(0, 2, ''a''), (0, 1, ''b'')]) (\<lambda>g. gutter_apply_subscript g 0))
      = Some ''ba''"
    by code_simp
  moreover have "foldl (combine concat_op) (identity concat_op)
      (values_at [(0, 2, ''a''), (0, 1, ''b'')] 0) = ''ab''"
    by code_simp
  ultimately show ?thesis by simp
qed

lemma functor_update_parent_eq:
  assumes "1 \<le> j" "j < gsize g"
  shows "functor_update_parent j g
    = Some (g\<lparr>heap := (heap g)(j := combine (op g) (heap g (2 * j)) (heap g (2 * j + 1)))\<rparr>)"
  using assms
  by (simp add: functor_update_parent_def heap_get_def heap_set_def in_block_def
      index_lbranch_def index_rbranch_def)

lemma node_ok_cong:
  assumes "op g' = op g" "heap g' j = heap g j" "heap g' (2 * j) = heap g (2 * j)"
    "heap g' (2 * j + 1) = heap g (2 * j + 1)"
  shows "node_ok g' j = node_ok g j"
  using assms by (simp add: node_ok_def index_lbranch_def index_rbranch_def)

text \<open>
  The walk from \<open>p\<close> to the root with \<^verbatim>\<open>functor_update_parent\<close> repairs the nodes on its
  way and touches no other cell.
\<close>

lemma leafup_update_parent:
  "p < gsize g \<Longrightarrow>
   (\<And>j. 1 \<le> j \<Longrightarrow> j < gsize g \<Longrightarrow> \<not> on_path j p \<Longrightarrow> node_ok g j) \<Longrightarrow>
   \<exists>g'. act_on_all_ancestors_leafup p functor_update_parent g = Some g'
      \<and> gsize g' = gsize g \<and> op g' = op g \<and> consistent g'
      \<and> (\<forall>q. \<not> on_path q p \<longrightarrow> heap g' q = heap g q)"
proof (induction p arbitrary: g rule: less_induct)
  case (less p)
  show ?case
  proof (cases "p = 0")
    case True
    have "consistent g"
      unfolding consistent_def using less.prems(2) True by (simp add: on_path_0)
    then show ?thesis using True
      by (subst act_on_all_ancestors_leafup.simps) simp
  next
    case p0: False
    define g1 where
      "g1 = g\<lparr>heap := (heap g)(p := combine (op g) (heap g (2 * p)) (heap g (2 * p + 1)))\<rparr>"
    have f: "functor_update_parent p g = Some g1"
      unfolding g1_def by (rule functor_update_parent_eq) (use p0 less.prems(1) in simp_all)
    have g1: "gsize g1 = gsize g" "op g1 = op g" by (simp_all add: g1_def)
    have h1: "heap g1 q = (if q = p then combine (op g) (heap g (2 * p)) (heap g (2 * p + 1)) else heap g q)" for q
      by (simp add: g1_def)
    have ok1: "node_ok g1 j" if j: "1 \<le> j" "j < gsize g1" "\<not> on_path j (p div 2)" for j
    proof (cases "j = p")
      case True
      have "2 * p \<noteq> p" "2 * p + 1 \<noteq> p" using p0 by simp_all
      then show ?thesis using True by (simp add: node_ok_def h1 g1 index_lbranch_def index_rbranch_def)
    next
      case False
      then have np: "\<not> on_path j p" using j(3) p0 by (simp add: on_path_pos [of p])
      have "j \<noteq> p div 2" using j(1,3) on_path_self [of j] by auto
      then have "2 * j \<noteq> p" "2 * j + 1 \<noteq> p" by presburger+
      then have "node_ok g1 j = node_ok g j"
        using False by (intro node_ok_cong) (simp_all add: h1 g1)
      then show ?thesis using less.prems(2) [of j] j np g1 by simp
    qed
    have "\<exists>g'. act_on_all_ancestors_leafup (p div 2) functor_update_parent g1 = Some g'
      \<and> gsize g' = gsize g1 \<and> op g' = op g1 \<and> consistent g'
      \<and> (\<forall>q. \<not> on_path q (p div 2) \<longrightarrow> heap g' q = heap g1 q)"
      by (rule less.IH) (use p0 less.prems(1) g1 ok1 in simp_all)
    then obtain g' where g': "act_on_all_ancestors_leafup (p div 2) functor_update_parent g1 = Some g'"
      "gsize g' = gsize g1" "op g' = op g1" "consistent g'"
      "\<And>q. \<not> on_path q (p div 2) \<Longrightarrow> heap g' q = heap g1 q"
      by blast
    have keep: "heap g' q = heap g q" if "\<not> on_path q p" for q
    proof -
      have "q \<noteq> p" "\<not> on_path q (p div 2)" using that p0 by (simp_all add: on_path_pos [of p])
      then show ?thesis using g'(5) [of q] by (simp add: h1)
    qed
    have "act_on_all_ancestors_leafup p functor_update_parent g = Some g'"
      using p0 f g'(1) by (subst act_on_all_ancestors_leafup.simps) (simp add: index_parent_def)
    then show ?thesis using g' g1 keep by simp
  qed
qed

text \<open>A write to a leaf cell of a tree that satisfies the invariant, then the walk from its parent.\<close>

lemma write_leaf_then_update:
  assumes c: "consistent g" and l: "gsize g \<le> l" "l < 2 * gsize g"
    and g0: "g0 = g\<lparr>heap := (heap g)(l := y)\<rparr>"
  shows "\<exists>g'. act_on_all_ancestors_leafup (index_parent l) functor_update_parent g0 = Some g'
      \<and> gsize g' = gsize g \<and> op g' = op g \<and> consistent g'
      \<and> heap g' l = y \<and> (\<forall>q. gsize g \<le> q \<and> q \<noteq> l \<longrightarrow> heap g' q = heap g q)"
proof -
  have s0: "gsize g0 = gsize g" "op g0 = op g" by (simp_all add: g0)
  have ok0: "node_ok g0 j" if j: "1 \<le> j" "j < gsize g0" "\<not> on_path j (l div 2)" for j
  proof -
    have "j \<noteq> l div 2" using j(1,3) on_path_self [of j] by auto
    then have "2 * j \<noteq> l" "2 * j + 1 \<noteq> l" by presburger+
    moreover have "j \<noteq> l" using j(2) l s0 by simp
    ultimately have "node_ok g0 j = node_ok g j"
      by (intro node_ok_cong) (simp_all add: g0)
    then show ?thesis using c j s0 by (simp add: consistent_def)
  qed
  have "\<exists>g'. act_on_all_ancestors_leafup (l div 2) functor_update_parent g0 = Some g'
      \<and> gsize g' = gsize g0 \<and> op g' = op g0 \<and> consistent g'
      \<and> (\<forall>q. \<not> on_path q (l div 2) \<longrightarrow> heap g' q = heap g0 q)"
    by (rule leafup_update_parent) (use l s0 ok0 in simp_all)
  then obtain g' where g': "act_on_all_ancestors_leafup (l div 2) functor_update_parent g0 = Some g'"
    "gsize g' = gsize g0" "op g' = op g0" "consistent g'"
    "\<And>q. \<not> on_path q (l div 2) \<Longrightarrow> heap g' q = heap g0 q"
    by blast
  have far: "\<not> on_path q (l div 2)" if "gsize g \<le> q" for q
    using on_path_le [of q "l div 2"] that l by auto
  have "heap g' l = y" using g'(5) [of l] far [of l] l by (simp add: g0)
  moreover have "heap g' q = heap g q" if "gsize g \<le> q" "q \<noteq> l" for q
    using g'(5) [of q] far [of q] that by (simp add: g0)
  ultimately show ?thesis using g' s0 by (simp add: index_parent_def)
qed

lemma gutter_retrieve_assign_consistent:
  assumes "consistent g" "leaf_no < gsize g"
  shows "\<exists>g'. gutter_retrieve_assign g leaf_no x = Some g' \<and> gsize g' = gsize g \<and> op g' = op g
      \<and> consistent g'
      \<and> heap g' (index_nth_leaf (gsize g) leaf_no) = x
      \<and> (\<forall>q. gsize g \<le> q \<and> q \<noteq> index_nth_leaf (gsize g) leaf_no \<longrightarrow> heap g' q = heap g q)"
proof -
  define l where "l = index_nth_leaf (gsize g) leaf_no"
  have l: "gsize g \<le> l" "l < 2 * gsize g"
    using index_nth_leaf_range [of "gsize g" leaf_no] assms(2) by (simp_all add: l_def)
  define g0 where "g0 = g\<lparr>heap := (heap g)(l := x)\<rparr>"
  have w: "heap_set g l x = Some g0" using l assms(2) by (simp add: heap_set_def in_block_def g0_def)
  have "\<exists>g'. act_on_all_ancestors_leafup (index_parent l) functor_update_parent g0 = Some g'
      \<and> gsize g' = gsize g \<and> op g' = op g \<and> consistent g'
      \<and> heap g' l = x \<and> (\<forall>q. gsize g \<le> q \<and> q \<noteq> l \<longrightarrow> heap g' q = heap g q)"
    by (rule write_leaf_then_update [OF assms(1) l g0_def])
  then show ?thesis using w by (simp add: gutter_retrieve_assign_def l_def [symmetric])
qed

lemma gutter_retrieve_apply_consistent:
  assumes "consistent g" "leaf_no < gsize g"
  shows "\<exists>g'. gutter_retrieve_apply g leaf_no x = Some g' \<and> gsize g' = gsize g \<and> op g' = op g
      \<and> consistent g'
      \<and> heap g' (index_nth_leaf (gsize g) leaf_no)
          = combine (op g) (heap g (index_nth_leaf (gsize g) leaf_no)) x
      \<and> (\<forall>q. gsize g \<le> q \<and> q \<noteq> index_nth_leaf (gsize g) leaf_no \<longrightarrow> heap g' q = heap g q)"
proof -
  define l where "l = index_nth_leaf (gsize g) leaf_no"
  have l: "gsize g \<le> l" "l < 2 * gsize g"
    using index_nth_leaf_range [of "gsize g" leaf_no] assms(2) by (simp_all add: l_def)
  define g0 where "g0 = g\<lparr>heap := (heap g)(l := combine (op g) (heap g l) x)\<rparr>"
  have r: "heap_get g l = Some (heap g l)" using l assms(2) by (simp add: heap_get_def in_block_def)
  have w: "heap_set g l (combine (op g) (heap g l) x) = Some g0"
    using l assms(2) by (simp add: heap_set_def in_block_def g0_def)
  have "\<exists>g'. act_on_all_ancestors_leafup (index_parent l) functor_update_parent g0 = Some g'
      \<and> gsize g' = gsize g \<and> op g' = op g \<and> consistent g'
      \<and> heap g' l = combine (op g) (heap g l) x
      \<and> (\<forall>q. gsize g \<le> q \<and> q \<noteq> l \<longrightarrow> heap g' q = heap g q)"
    by (rule write_leaf_then_update [OF assms(1) l g0_def])
  then show ?thesis using r w by (simp add: gutter_retrieve_apply_def l_def [symmetric])
qed

lemma gutter_retrieve_new_consistent:
  assumes "combine f (identity f) (identity f) = identity f" "1 \<le> n"
  shows "\<exists>g. gutter_retrieve_new mem n f = Some g \<and> gsize g = n \<and> op g = f \<and> consistent g
      \<and> (\<forall>q. 1 \<le> q \<and> q < 2 * n \<longrightarrow> heap g q = identity f)"
proof -
  define g where "g = fill \<lparr>heap = mem, gsize = n, op = f\<rparr>"
  have new: "gutter_retrieve_new mem n f = Some g"
    using assms(2) by (simp add: gutter_retrieve_new_def gutter_base_new_def g_def)
  have g: "gsize g = n" "op g = f" by (simp_all add: g_def fill_def)
  have h: "heap g q = identity f" if "1 \<le> q" "q < 2 * n" for q
    using that by (simp add: g_def fill_def in_block_def)
  have "node_ok g j" if "1 \<le> j" "j < n" for j
    using that h [of j] h [of "2 * j"] h [of "2 * j + 1"] assms(1)
    by (simp add: node_ok_def g index_lbranch_def index_rbranch_def)
  then have "consistent g" by (simp add: consistent_def g)
  then show ?thesis using new g h by simp
qed

lemma in_rows_up_0: "\<not> in_rows_up 0 i2 j"
  by (subst in_rows_up.simps) simp

lemma in_rows_up_pos:
  "i1 \<noteq> 0 \<Longrightarrow> in_rows_up i1 i2 j = ((i1 \<le> j \<and> j \<le> i2) \<or> in_rows_up (i1 div 2) (i2 div 2) j)"
  by (subst in_rows_up.simps) (simp add: index_parent_def)

lemma msb_0: "msb 0 = 0" and msb_1: "msb 1 = 1" and msb_Suc_0: "msb (Suc 0) = Suc 0"
  by (simp_all add: msb.simps)

lemma msb_half: "msb (a div 2) = msb a div 2"
proof (cases "a \<le> 1")
  case True
  then have "a = 0 \<or> a = 1" by auto
  then show ?thesis by (auto simp: msb_0 msb_1 msb_Suc_0)
next
  case False
  then have "msb a = 2 * msb (a div 2)" by (subst msb.simps) simp
  then show ?thesis by simp
qed

lemma msb_eq_0: "msb a = 0 \<Longrightarrow> a = 0"
  using msb_gt [of a] by (cases "a = 0") auto

lemma msb_unique: "2 ^ k \<le> v \<Longrightarrow> v < 2 * 2 ^ k \<Longrightarrow> msb v = 2 ^ k"
proof (induction k arbitrary: v)
  case 0
  then have "v = 1" by simp
  then show ?case by (simp add: msb_1 msb_Suc_0)
next
  case (Suc k)
  have "msb (v div 2) = 2 ^ k" by (rule Suc.IH) (use Suc.prems in simp_all)
  moreover have "(1::nat) \<le> 2 ^ k" by simp
  moreover have "2 * 2 ^ k \<le> v" using Suc.prems(1) by simp
  ultimately have "msb (v div 2) = 2 ^ k \<and> \<not> v \<le> 1" by linarith
  then have "msb (v div 2) = 2 ^ k" "\<not> v \<le> 1" by simp_all
  then show ?case by (subst msb.simps) simp
qed

lemma same_row_bound:
  assumes "msb i1 = msb i2" "i1 \<noteq> 0"
  shows "i2 < 2 * i1" "i2 \<noteq> 0"
proof -
  have "i2 \<noteq> 0"
  proof
    assume "i2 = 0"
    then have "msb i1 = 0" using assms(1) by (simp add: msb_0)
    then have "i1 = 0" by (rule msb_eq_0)
    with assms(2) show False by simp
  qed
  then have "i2 < 2 * msb i2" using msb_gt [of i2] by simp
  moreover have "msb i1 \<le> i1" by (rule msb_le)
  ultimately show "i2 < 2 * i1" using assms(1) by simp
  show "i2 \<noteq> 0" by fact
qed

lemma act_on_row_visit: "act_on_row j j1 f s = visit f [j..<j1 + 1] s"
proof (induction "j1 + 1 - j" arbitrary: j s)
  case 0
  then show ?case by (subst act_on_row.simps) simp
next
  case (Suc d)
  then have le: "j \<le> j1" by simp
  have ih: "act_on_row (j + 1) j1 f s' = visit f [j + 1..<j1 + 1] s'" for s'
    by (rule Suc.hyps(1)) (use Suc.hyps(2) in simp)
  have "[j..<j1 + 1] = j # [j + 1..<j1 + 1]" using le by (simp add: upt_conv_Cons)
  then show ?case using le ih by (subst act_on_row.simps) (simp split: option.splits)
qed

text \<open>\<^verbatim>\<open>functor_update_parent\<close> along nodes none of which is a child of another.\<close>

lemma visit_update_parent:
  "(\<And>v. v \<in> set ns \<Longrightarrow> 1 \<le> v \<and> v < gsize g) \<Longrightarrow>
   (\<And>u w. u \<in> set ns \<Longrightarrow> w \<in> set ns \<Longrightarrow> 2 * u \<noteq> w \<and> 2 * u + 1 \<noteq> w) \<Longrightarrow>
   \<exists>g'. visit functor_update_parent ns g = Some g' \<and> gsize g' = gsize g \<and> op g' = op g
      \<and> (\<forall>j. heap g' j = (if j \<in> set ns then combine (op g) (heap g (2 * j)) (heap g (2 * j + 1))
                             else heap g j))"
proof (induction ns arbitrary: g)
  case Nil
  then show ?case by simp
next
  case (Cons v ns)
  define g1 where
    "g1 = g\<lparr>heap := (heap g)(v := combine (op g) (heap g (2 * v)) (heap g (2 * v + 1)))\<rparr>"
  have f: "functor_update_parent v g = Some g1"
    unfolding g1_def by (rule functor_update_parent_eq) (use Cons.prems(1) [of v] in simp_all)
  have g1: "gsize g1 = gsize g" "op g1 = op g" by (simp_all add: g1_def)
  have "\<exists>g'. visit functor_update_parent ns g1 = Some g' \<and> gsize g' = gsize g1 \<and> op g' = op g1
      \<and> (\<forall>j. heap g' j = (if j \<in> set ns then combine (op g1) (heap g1 (2 * j)) (heap g1 (2 * j + 1))
                             else heap g1 j))"
    by (rule Cons.IH) (use Cons.prems g1 in simp_all)
  then obtain g' where g': "visit functor_update_parent ns g1 = Some g'" "gsize g' = gsize g1"
    "op g' = op g1"
    "\<And>j. heap g' j = (if j \<in> set ns then combine (op g1) (heap g1 (2 * j)) (heap g1 (2 * j + 1))
                             else heap g1 j)"
    by blast
  have ch: "heap g1 (2 * j) = heap g (2 * j) \<and> heap g1 (2 * j + 1) = heap g (2 * j + 1)"
    if "j \<in> set (v # ns)" for j
    using Cons.prems(2) [of j v] that by (simp add: g1_def)
  have "heap g' j = (if j \<in> set (v # ns) then combine (op g) (heap g (2 * j)) (heap g (2 * j + 1))
                     else heap g j)" for j
  proof (cases "j \<in> set ns")
    case True
    then show ?thesis using g'(4) [of j] ch [of j] g1 by simp
  next
    case False
    then show ?thesis using g'(4) [of j] by (simp add: g1_def)
  qed
  then show ?case using f g' g1 by simp
qed

text \<open>
  The loop over the rows, from two indices of one row, repairs every node it can reach
  and touches no leaf cell.
\<close>

lemma leafup_rows_update_parent:
  "msb i1 = msb i2 \<Longrightarrow> i2 < gsize g \<Longrightarrow>
   (\<And>j. 1 \<le> j \<Longrightarrow> j < gsize g \<Longrightarrow> \<not> in_rows_up i1 i2 j \<Longrightarrow> node_ok g j) \<Longrightarrow>
   \<exists>g'. leafup_rows i1 i2 functor_update_parent g = Some g'
      \<and> gsize g' = gsize g \<and> op g' = op g \<and> consistent g'
      \<and> (\<forall>q. gsize g \<le> q \<longrightarrow> heap g' q = heap g q)"
proof (induction i1 arbitrary: i2 g rule: less_induct)
  case (less i1)
  show ?case
  proof (cases "i1 = 0")
    case True
    have "consistent g"
      unfolding consistent_def using less.prems(3) True by (simp add: in_rows_up_0)
    then show ?thesis using True by (subst leafup_rows.simps) simp
  next
    case p: False
    have b: "i2 < 2 * i1" "i2 \<noteq> 0" using same_row_bound [OF less.prems(1) p] by simp_all
    define row where "row = [i1..<i2 + 1]"
    have mem: "j \<in> set row \<longleftrightarrow> i1 \<le> j \<and> j \<le> i2" for j by (auto simp: row_def)
    have "\<exists>g'. visit functor_update_parent row g = Some g' \<and> gsize g' = gsize g
      \<and> op g' = op g
      \<and> (\<forall>j. heap g' j = (if j \<in> set row
            then combine (op g) (heap g (2 * j)) (heap g (2 * j + 1)) else heap g j))"
    proof (rule visit_update_parent)
      fix v assume "v \<in> set row"
      then show "1 \<le> v \<and> v < gsize g" using p less.prems(2) by (simp add: mem)
    next
      fix u w assume "u \<in> set row" "w \<in> set row"
      then show "2 * u \<noteq> w \<and> 2 * u + 1 \<noteq> w" using b by (simp add: mem)
    qed
    then obtain g1 where g1: "visit functor_update_parent row g = Some g1"
      "gsize g1 = gsize g" "op g1 = op g"
      "\<And>j. heap g1 j = (if i1 \<le> j \<and> j \<le> i2
            then combine (op g) (heap g (2 * j)) (heap g (2 * j + 1)) else heap g j)"
      unfolding mem by blast
    have ok1: "node_ok g1 j"
      if j: "1 \<le> j" "j < gsize g1" "\<not> in_rows_up (i1 div 2) (i2 div 2) j" for j
    proof (cases "i1 \<le> j \<and> j \<le> i2")
      case True
      have "\<not> (i1 \<le> 2 * j \<and> 2 * j \<le> i2)" using True b by simp
      then have hl: "heap g1 (2 * j) = heap g (2 * j)"
        unfolding g1(4) [of "2 * j"] by (rule if_not_P)
      have "\<not> (i1 \<le> 2 * j + 1 \<and> 2 * j + 1 \<le> i2)" using True b by simp
      then have hr: "heap g1 (2 * j + 1) = heap g (2 * j + 1)"
        unfolding g1(4) [of "2 * j + 1"] by (rule if_not_P)
      have hj: "heap g1 j = combine (op g) (heap g (2 * j)) (heap g (2 * j + 1))"
        unfolding g1(4) [of j] using True by (rule if_P)
      show ?thesis using hl hr hj g1(3)
        by (simp add: node_ok_def index_lbranch_def index_rbranch_def)
    next
      case False
      have half: "i1 div 2 \<le> j \<and> j \<le> i2 div 2"
        if "i1 \<le> c \<and> c \<le> i2" "c = 2 * j \<or> c = 2 * j + 1" for c
        using that by auto
      have nz: "i1 div 2 \<noteq> 0" if "i1 \<le> c \<and> c \<le> i2" "c = 2 * j \<or> c = 2 * j + 1" for c
      proof
        assume "i1 div 2 = 0"
        then have "i1 = 1" using p by auto
        then have "msb i2 = 1" using less.prems(1) by (simp add: msb_1 msb_Suc_0)
        then have "i2 = 1" using msb_le [of i2] msb_gt [of i2] b(2) by simp
        then show False using that j(1) \<open>i1 = 1\<close> by auto
      qed
      have nc: "\<not> (i1 \<le> c \<and> c \<le> i2)" if "c = 2 * j \<or> c = 2 * j + 1" for c
      proof
        assume c: "i1 \<le> c \<and> c \<le> i2"
        have "in_rows_up (i1 div 2) (i2 div 2) j"
          using half [OF c that] nz [OF c that] by (simp add: in_rows_up_pos)
        then show False using j(3) by simp
      qed
      have hj: "heap g1 j = heap g j"
        unfolding g1(4) [of j] using False by (rule if_not_P)
      have hl: "heap g1 (2 * j) = heap g (2 * j)"
        unfolding g1(4) [of "2 * j"] by (rule if_not_P) (rule nc, simp)
      have hr: "heap g1 (2 * j + 1) = heap g (2 * j + 1)"
        unfolding g1(4) [of "2 * j + 1"] by (rule if_not_P) (rule nc, simp)
      have "node_ok g1 j = node_ok g j"
        by (rule node_ok_cong [OF g1(3) hj hl hr])
      moreover have "\<not> in_rows_up i1 i2 j" using False j(3) p by (simp add: in_rows_up_pos)
      ultimately show ?thesis using less.prems(3) [of j] j g1(2) by simp
    qed
    have "\<exists>g'. leafup_rows (i1 div 2) (i2 div 2) functor_update_parent g1 = Some g'
      \<and> gsize g' = gsize g1 \<and> op g' = op g1 \<and> consistent g'
      \<and> (\<forall>q. gsize g1 \<le> q \<longrightarrow> heap g' q = heap g1 q)"
      by (rule less.IH) (use p less.prems(1,2) g1(2) ok1 in \<open>simp_all add: msb_half\<close>)
    then obtain g' where g': "leafup_rows (i1 div 2) (i2 div 2) functor_update_parent g1 = Some g'"
      "gsize g' = gsize g1" "op g' = op g1" "consistent g'"
      "\<And>q. gsize g1 \<le> q \<Longrightarrow> heap g' q = heap g1 q"
      by blast
    have keep: "heap g' q = heap g q" if "gsize g \<le> q" for q
    proof -
      have "\<not> (i1 \<le> q \<and> q \<le> i2)" using that less.prems(2) by simp
      then have "heap g1 q = heap g q" unfolding g1(4) [of q] by (rule if_not_P)
      then show ?thesis using g'(5) [of q] g1(2) that by simp
    qed
    have row1: "act_on_row i1 i2 functor_update_parent g = Some g1"
      unfolding act_on_row_visit using g1(1) by (simp only: row_def)
    have "leafup_rows i1 i2 functor_update_parent g
        = (case act_on_row i1 i2 functor_update_parent g of None \<Rightarrow> None
           | Some s' \<Rightarrow> leafup_rows (index_parent i1) (index_parent i2) functor_update_parent s')"
      using p by (subst leafup_rows.simps) simp
    then have "leafup_rows i1 i2 functor_update_parent g = Some g'"
      unfolding row1 using g'(1) by (simp add: index_parent_def)
    then show ?thesis using g' g1 keep by simp
  qed
qed

lemma on_path_in_rows_up:
  "on_path j p \<Longrightarrow> a \<le> p \<Longrightarrow> p \<le> b \<Longrightarrow> msb a = msb b \<Longrightarrow> in_rows_up a b j"
proof (induction p arbitrary: a b rule: less_induct)
  case (less p)
  have p0: "p \<noteq> 0"
  proof
    assume "p = 0"
    with less.prems(1) show False by (simp add: on_path_0)
  qed
  have a0: "a \<noteq> 0"
  proof
    assume "a = 0"
    then have "msb b = 0" using less.prems(4) by (simp add: msb_0)
    then have "b = 0" by (rule msb_eq_0)
    with less.prems(3) p0 show False by simp
  qed
  from less.prems(1) p0 have "p = j \<or> on_path j (p div 2)" by (simp add: on_path_pos)
  then show ?case
  proof
    assume "p = j"
    then show ?thesis using less.prems(2,3) a0 by (simp add: in_rows_up_pos)
  next
    assume "on_path j (p div 2)"
    then have "in_rows_up (a div 2) (b div 2) j"
      by (rule less.IH [rotated]) (use p0 less.prems(2,3,4) in \<open>simp_all add: msb_half div_le_mono\<close>)
    then show ?thesis using a0 by (simp add: in_rows_up_pos)
  qed
qed

lemma on_path_parent: "on_path j c \<Longrightarrow> j \<noteq> c \<Longrightarrow> on_path j (c div 2)"
  by (cases "c = 0") (simp_all add: on_path_0 on_path_pos)

text \<open>The walk over a pair, from the parents of two leaf cells of one row.\<close>

lemma leafup2_same_row:
  assumes lr: "n \<le> L" "L \<le> R" "R < 2 * n" and row: "msb L = msb R" and n: "gsize g = n"
    and dirty: "\<And>j. 1 \<le> j \<Longrightarrow> j < n \<Longrightarrow> (\<And>c. L \<le> c \<Longrightarrow> c \<le> R \<Longrightarrow> \<not> on_path j c) \<Longrightarrow> node_ok g j"
  shows "\<exists>g'. act_on_all_ancestors_leafup2 n (index_parent L) (index_parent R) functor_update_parent g
        = Some g'
      \<and> gsize g' = gsize g \<and> op g' = op g \<and> consistent g'
      \<and> (\<forall>q. n \<le> q \<longrightarrow> heap g' q = heap g q)"
proof -
  have le: "\<not> L div 2 > R div 2" using lr(2) by (simp add: div_le_mono)
  have "\<exists>g'. leafup_rows (L div 2) (R div 2) functor_update_parent g = Some g'
      \<and> gsize g' = gsize g \<and> op g' = op g \<and> consistent g'
      \<and> (\<forall>q. gsize g \<le> q \<longrightarrow> heap g' q = heap g q)"
  proof (rule leafup_rows_update_parent)
    show "msb (L div 2) = msb (R div 2)" using row by (simp add: msb_half)
    show "R div 2 < gsize g" using lr n by simp
    fix j assume j: "1 \<le> j" "j < gsize g" "\<not> in_rows_up (L div 2) (R div 2) j"
    show "node_ok g j"
    proof (rule dirty)
      show "1 \<le> j" "j < n" using j n by simp_all
      fix c assume c: "L \<le> c" "c \<le> R"
      show "\<not> on_path j c"
      proof
        assume "on_path j c"
        then have "on_path j (c div 2)" by (rule on_path_parent) (use c lr j n in simp)
        then have "in_rows_up (L div 2) (R div 2) j"
          by (rule on_path_in_rows_up) (use c row in \<open>simp_all add: msb_half div_le_mono\<close>)
        with j(3) show False by simp
      qed
    qed
  qed
  then show ?thesis using le n by (simp add: act_on_all_ancestors_leafup2_def index_parent_def)
qed

lemma index_ancestor_of_last:
  assumes "1 \<le> r" "r \<le> n - 1" "n - 1 < 2 * r"
  shows "index_ancestor_in_row (2 * n - 1) r = Some (n - 1)"
proof -
  have p: "index_parent (2 * n - 1) = n - 1" using assms by (simp add: index_parent_def)
  have "\<not> r \<le> index_parent (n - 1)" using assms by (simp add: index_parent_def)
  then have s: "index_ancestor_in_row (n - 1) r = Some (n - 1)"
    by (subst index_ancestor_in_row.simps) simp
  have "index_ancestor_in_row (2 * n - 1) r
      = (if index_parent (2 * n - 1) \<ge> r then index_ancestor_in_row (index_parent (2 * n - 1)) r
         else Some (2 * n - 1))"
    by (rule index_ancestor_in_row.simps)
  also have "\<dots> = index_ancestor_in_row (n - 1) r" unfolding p using assms(2) by simp
  finally show ?thesis using s by simp
qed

text \<open>
  The walk over a pair, from the parent of a leaf cell of the deepest row and the parent
  of a leaf cell of the row above.
\<close>

lemma leafup2_two_rows:
  assumes lr: "n \<le> R" "R < D" "D \<le> L" "L < 2 * n" and D: "msb L = D" "msb R = D div 2"
    and n: "gsize g = n"
    and dirty: "\<And>j. 1 \<le> j \<Longrightarrow> j < n \<Longrightarrow>
        (\<And>c. (L \<le> c \<and> c < 2 * n) \<or> (n \<le> c \<and> c \<le> R) \<Longrightarrow> \<not> on_path j c) \<Longrightarrow> node_ok g j"
  shows "\<exists>g'. act_on_all_ancestors_leafup2 n (index_parent L) (index_parent R) functor_update_parent g
        = Some g'
      \<and> gsize g' = gsize g \<and> op g' = op g \<and> consistent g'
      \<and> (\<forall>q. n \<le> q \<longrightarrow> heap g' q = heap g q)"
proof -
  define a where "a = L div 2"
  define b where "b = R div 2"
  have ma: "msb a = D div 2" using D(1) by (simp add: a_def msb_half)
  have mb: "msb b = D div 2 div 2" using D(2) by (simp add: b_def msb_half)
  have Dle: "D div 2 \<le> R" "R < 2 * (D div 2)"
    using msb_le [of R] msb_gt [of R] lr D(2) by simp_all
  have D2: "2 * (D div 2) = D"
  proof -
    obtain k where k: "msb L = 2 ^ k" using msb_pow2 [of L] lr by (cases "L = 0") auto
    have "k \<noteq> 0" using k D(1) lr by (cases k) auto
    then obtain k' where "k = Suc k'" by (cases k) auto
    then show ?thesis using k D(1) by simp
  qed
  have a: "D div 2 \<le> a" "a < n" using lr by (simp_all add: a_def div_le_mono) 
  have b: "b < D div 2" using lr(2) D2 by (simp add: b_def)
  have gt: "a > b" using a b by simp
  have r1: "1 \<le> D div 2" using lr Dle by simp
  have anc: "index_ancestor_in_row (2 * n - 1) (index_first_of_row a) = Some (n - 1)"
    unfolding index_first_of_row_def ma
    by (rule index_ancestor_of_last) (use r1 a lr D2 in simp_all)
  text \<open>The first row: the parents of the leaf cells of the deepest row from \<open>L\<close> on.\<close>
  define row where "row = [a..<n - 1 + 1]"
  have mem: "j \<in> set row \<longleftrightarrow> a \<le> j \<and> j < n" for j using a by (auto simp: row_def)
  have "\<exists>g'. visit functor_update_parent row g = Some g' \<and> gsize g' = gsize g \<and> op g' = op g
      \<and> (\<forall>j. heap g' j = (if j \<in> set row
            then combine (op g) (heap g (2 * j)) (heap g (2 * j + 1)) else heap g j))"
  proof (rule visit_update_parent)
    fix v assume "v \<in> set row"
    then show "1 \<le> v \<and> v < gsize g" using a r1 n by (simp add: mem)
  next
    fix u w assume "u \<in> set row" "w \<in> set row"
    then show "2 * u \<noteq> w \<and> 2 * u + 1 \<noteq> w" using a D2 lr by (simp add: mem)
  qed
  then obtain g1 where g1: "visit functor_update_parent row g = Some g1"
    "gsize g1 = gsize g" "op g1 = op g"
    "\<And>j. heap g1 j = (if a \<le> j \<and> j < n
          then combine (op g) (heap g (2 * j)) (heap g (2 * j + 1)) else heap g j)"
    unfolding mem by blast
  have row1: "act_on_row a (n - 1) functor_update_parent g = Some g1"
    unfolding act_on_row_visit using g1(1) by (simp only: row_def)
  have same: "heap g1 q = heap g q" if "\<not> (a \<le> q \<and> q < n)" for q
    unfolding g1(4) [of q] using that by (rule if_not_P)
  text \<open>The rows above.\<close>
  have "\<exists>g'. leafup_rows (a div 2) b functor_update_parent g1 = Some g'
      \<and> gsize g' = gsize g1 \<and> op g' = op g1 \<and> consistent g'
      \<and> (\<forall>q. gsize g1 \<le> q \<longrightarrow> heap g' q = heap g1 q)"
  proof (rule leafup_rows_update_parent)
    show "msb (a div 2) = msb b" using ma mb by (simp add: msb_half)
    show "b < gsize g1" using b a g1(2) n by simp
    fix j assume j: "1 \<le> j" "j < gsize g1" "\<not> in_rows_up (a div 2) b j"
    have row2: "msb (a div 2) = msb b" using ma mb by (simp add: msb_half)
    have up: "\<not> on_path j p" if "a div 2 \<le> p" "p \<le> b" for p
      using on_path_in_rows_up [OF _ that row2] j(3) by auto
    show "node_ok g1 j"
    proof (cases "a \<le> j \<and> j < n")
      case True
      have hl: "heap g1 (2 * j) = heap g (2 * j)" by (rule same) (use True a D2 lr in simp)
      have hr: "heap g1 (2 * j + 1) = heap g (2 * j + 1)" by (rule same) (use True a D2 lr in simp)
      have hj: "heap g1 j = combine (op g) (heap g (2 * j)) (heap g (2 * j + 1))"
        unfolding g1(4) [of j] using True by (rule if_P)
      show ?thesis using hl hr hj g1(3)
        by (simp add: node_ok_def index_lbranch_def index_rbranch_def)
    next
      case False
      have jn: "j < n" using j(2) g1(2) n by simp
      have nch: "\<not> (a \<le> c \<and> c < n)" if "c = 2 * j \<or> c = 2 * j + 1" for c
      proof
        assume c: "a \<le> c \<and> c < n"
        have "a div 2 \<le> j" using c that by auto
        moreover have "j \<le> b" using c that lr by (auto simp: b_def)
        ultimately have "\<not> on_path j j" by (rule up)
        then show False using on_path_self [OF j(1)] by simp
      qed
      have hj: "heap g1 j = heap g j" by (rule same) (rule False)
      have hl: "heap g1 (2 * j) = heap g (2 * j)" by (rule same) (rule nch, simp)
      have hr: "heap g1 (2 * j + 1) = heap g (2 * j + 1)" by (rule same) (rule nch, simp)
      have "node_ok g1 j = node_ok g j" by (rule node_ok_cong [OF g1(3) hj hl hr])
      moreover have "node_ok g j"
      proof (rule dirty [OF j(1) jn])
        fix c assume c: "(L \<le> c \<and> c < 2 * n) \<or> (n \<le> c \<and> c \<le> R)"
        show "\<not> on_path j c"
        proof
          assume oc: "on_path j c"
          have cn: "n \<le> c" using c lr by auto
          have p1: "on_path j (c div 2)" by (rule on_path_parent [OF oc]) (use cn jn in simp)
          from c show False
          proof
            assume d: "L \<le> c \<and> c < 2 * n"
            then have "a \<le> c div 2 \<and> c div 2 < n" by (auto simp: a_def div_le_mono)
            then have "j \<noteq> c div 2" using False by auto
            then have "on_path j (c div 2 div 2)" by (rule on_path_parent [OF p1])
            moreover have "a div 2 \<le> c div 2 div 2" using d by (simp add: a_def div_le_mono)
            moreover have "c div 2 div 2 \<le> b" using d lr by (auto simp: b_def intro: div_le_mono)
            ultimately show False using up by blast
          next
            assume u: "n \<le> c \<and> c \<le> R"
            have "a div 2 \<le> c div 2" using u a by (auto intro: div_le_mono)
            moreover have "c div 2 \<le> b" using u by (simp add: b_def div_le_mono)
            ultimately show False using up p1 by blast
          qed
        qed
      qed
      ultimately show ?thesis by simp
    qed
  qed
  then obtain g' where g': "leafup_rows (a div 2) b functor_update_parent g1 = Some g'"
    "gsize g' = gsize g1" "op g' = op g1" "consistent g'"
    "\<And>q. gsize g1 \<le> q \<Longrightarrow> heap g' q = heap g1 q"
    by blast
  have keep: "heap g' q = heap g q" if "n \<le> q" for q
    using g'(5) [of q] same [of q] g1(2) n that by simp
  have "act_on_all_ancestors_leafup2 n (index_parent L) (index_parent R) functor_update_parent g
      = Some g'"
    using gt anc row1 g'(1)
    by (simp add: act_on_all_ancestors_leafup2_def index_parent_def a_def [symmetric] b_def [symmetric])
  then show ?thesis using g' g1 keep by simp
qed

lemma next_leaf:
  assumes n: "1 \<le> n" and k: "k + 1 < n"
  shows "(if index_nth_leaf n k + 1 = 2 * n then index_parent (index_nth_leaf n k + 1)
          else index_nth_leaf n k + 1) = index_nth_leaf n (k + 1)"
proof -
  define D where "D = index_deepest_lvl_1st n"
  have D: "n \<le> D" "D < 2 * n" using index_deepest_lvl_1st_bounds [OF n] by (simp_all add: D_def)
  have idx: "index_nth_leaf n k = (if k + D < 2 * n then k + D else k + D - n)" for k
    by (simp add: index_nth_leaf_eq D_def)
  show ?thesis
  proof (cases "k + D < 2 * n")
    case True
    show ?thesis
    proof (cases "k + 1 + D < 2 * n")
      case t: True
      then show ?thesis using True by (simp add: idx)
    next
      case False
      then have e: "k + D + 1 = 2 * n" using True by simp
      have "index_nth_leaf n (k + 1) = n" using False e by (simp add: idx)
      moreover have "index_nth_leaf n k + 1 = 2 * n" using True e by (simp add: idx)
      ultimately show ?thesis by (simp add: index_parent_def)
    qed
  next
    case False
    then have "index_nth_leaf n k = k + D - n" "index_nth_leaf n (k + 1) = k + 1 + D - n"
      by (simp_all add: idx)
    moreover have "k + D - n + 1 = k + 1 + D - n" "k + 1 + D - n \<noteq> 2 * n" using False D k by simp_all
    ultimately show ?thesis by simp
  qed
qed

text \<open>The ordered walk over the leaf cells of the leaves \<open>k1, ..., k2 - 1\<close>.\<close>

lemma leaves_loop_visit:
  assumes n: "1 \<le> n"
  shows "k1 < k2 \<Longrightarrow> k2 \<le> n \<Longrightarrow>
    (if i = 2 * n then index_parent i else i) = index_nth_leaf n k1 \<Longrightarrow>
    leaves_loop n i (index_nth_leaf n (k2 - 1) + 1) f s = visit f (map (index_nth_leaf n) [k1..<k2]) s"
proof (induction "k2 - k1" arbitrary: k1 i s)
  case 0
  then show ?case by simp
next
  case (Suc d)
  let ?c = "index_nth_leaf n k1"
  have unf: "leaves_loop n i (index_nth_leaf n (k2 - 1) + 1) f s
      = (case f ?c s of None \<Rightarrow> None
         | Some s' \<Rightarrow> if ?c + 1 \<noteq> index_nth_leaf n (k2 - 1) + 1
                      then leaves_loop n (?c + 1) (index_nth_leaf n (k2 - 1) + 1) f s' else Some s')"
    by (subst leaves_loop.simps) (simp only: Suc.prems(3))
  have lst: "[k1..<k2] = k1 # [k1 + 1..<k2]" using Suc.prems(1) by (simp add: upt_conv_Cons)
  show ?case
  proof (cases "k1 + 1 = k2")
    case True
    then have "k2 - 1 = k1" "[k1 + 1..<k2] = []" by simp_all
    then show ?thesis unfolding unf lst by (simp split: option.splits)
  next
    case False
    then have lt: "k1 + 1 < k2" using Suc.prems(1) by simp
    have a: "k1 < n" "k2 - 1 < n" "k1 \<noteq> k2 - 1" using lt Suc.prems(2) by simp_all
    have "index_nth_leaf n k1 \<noteq> index_nth_leaf n (k2 - 1)"
      using index_nth_leaf_inj [OF n a(1,2)] a(3) by blast
    then have ne: "?c + 1 \<noteq> index_nth_leaf n (k2 - 1) + 1" by simp
    have ih: "leaves_loop n (?c + 1) (index_nth_leaf n (k2 - 1) + 1) f s'
        = visit f (map (index_nth_leaf n) [k1 + 1..<k2]) s'" for s'
    proof (rule Suc.hyps(1))
      show "d = k2 - (k1 + 1)" using Suc.hyps(2) by simp
      show "k1 + 1 < k2" by (rule lt)
      show "k2 \<le> n" by (rule Suc.prems(2))
      show "(if ?c + 1 = 2 * n then index_parent (?c + 1) else ?c + 1) = index_nth_leaf n (k1 + 1)"
        by (rule next_leaf [OF n]) (use lt Suc.prems(2) in simp)
    qed
    show ?thesis unfolding unf lst using ne ih by (simp split: option.splits)
  qed
qed

lemma act_on_leaves_in_order_visit:
  assumes "1 \<le> n" "k1 < k2" "k2 \<le> n"
  shows "act_on_leaves_in_order n (index_nth_leaf n k1) (index_nth_leaf n (k2 - 1)) f s
       = visit f (map (index_nth_leaf n) [k1..<k2]) s"
proof -
  have "index_nth_leaf n k1 < 2 * n" using index_nth_leaf_range [of n k1] assms by simp
  then have "(if index_nth_leaf n k1 = 2 * n then index_parent (index_nth_leaf n k1)
              else index_nth_leaf n k1) = index_nth_leaf n k1" by simp
  then show ?thesis
    unfolding act_on_leaves_in_order_def by (rule leaves_loop_visit [OF assms])
qed

text \<open>\<^verbatim>\<open>functor_set_from_iter\<close> along distinct cells of the block.\<close>

lemma visit_set_from_iter:
  "distinct cs \<Longrightarrow> (\<And>c. c \<in> set cs \<Longrightarrow> 1 \<le> c \<and> c < 2 * gsize g) \<Longrightarrow> length cs \<le> length input \<Longrightarrow>
   \<exists>g'. visit functor_set_from_iter cs (g, input) = Some (g', drop (length cs) input)
      \<and> gsize g' = gsize g \<and> op g' = op g
      \<and> (\<forall>t<length cs. heap g' (cs ! t) = input ! t)
      \<and> (\<forall>q. q \<notin> set cs \<longrightarrow> heap g' q = heap g q)"
proof (induction cs arbitrary: g input)
  case Nil
  then show ?case by simp
next
  case (Cons c cs)
  obtain x rest where input: "input = x # rest" using Cons.prems(3) by (cases input) auto
  define g1 where "g1 = g\<lparr>heap := (heap g)(c := x)\<rparr>"
  have f: "functor_set_from_iter c (g, input) = Some (g1, rest)"
    using Cons.prems(2) [of c]
    by (simp add: functor_set_from_iter_def input heap_set_def in_block_def g1_def)
  have g1: "gsize g1 = gsize g" "op g1 = op g" by (simp_all add: g1_def)
  have "\<exists>g'. visit functor_set_from_iter cs (g1, rest) = Some (g', drop (length cs) rest)
      \<and> gsize g' = gsize g1 \<and> op g' = op g1
      \<and> (\<forall>t<length cs. heap g' (cs ! t) = rest ! t)
      \<and> (\<forall>q. q \<notin> set cs \<longrightarrow> heap g' q = heap g1 q)"
    by (rule Cons.IH) (use Cons.prems input g1 in simp_all)
  then obtain g' where g': "visit functor_set_from_iter cs (g1, rest) = Some (g', drop (length cs) rest)"
    "gsize g' = gsize g1" "op g' = op g1"
    "\<And>t. t < length cs \<Longrightarrow> heap g' (cs ! t) = rest ! t"
    "\<And>q. q \<notin> set cs \<Longrightarrow> heap g' q = heap g1 q"
    by blast
  have first: "heap g' c = x" using g'(5) [of c] Cons.prems(1) by (simp add: g1_def)
  have nth: "heap g' ((c # cs) ! t) = input ! t" if "t < length (c # cs)" for t
    using that first g'(4) [of "t - 1"] by (cases t) (simp_all add: input)
  have other: "heap g' q = heap g q" if "q \<notin> set (c # cs)" for q
    using that g'(5) [of q] by (simp add: g1_def)
  show ?case using f g' g1 nth other by (simp add: input)
qed

text \<open>
  The leaf cells of the leaves \<open>i1, ..., i2 - 1\<close>: one run of cells in one row, or the end of
  the deepest row with the start of the leaf cells of the row above.
\<close>

lemma leaf_range_cells:
  assumes n: "1 \<le> n" and lt: "i1 < i2" and le: "i2 \<le> n"
  obtains (one_row) "n \<le> index_nth_leaf n i1" "index_nth_leaf n i1 \<le> index_nth_leaf n (i2 - 1)"
      "index_nth_leaf n (i2 - 1) < 2 * n"
      "msb (index_nth_leaf n i1) = msb (index_nth_leaf n (i2 - 1))"
      "set (map (index_nth_leaf n) [i1..<i2])
        = {c. index_nth_leaf n i1 \<le> c \<and> c \<le> index_nth_leaf n (i2 - 1)}"
  | (two_rows) D where "n \<le> index_nth_leaf n (i2 - 1)" "index_nth_leaf n (i2 - 1) < D"
      "D \<le> index_nth_leaf n i1" "index_nth_leaf n i1 < 2 * n"
      "msb (index_nth_leaf n i1) = D" "msb (index_nth_leaf n (i2 - 1)) = D div 2"
      "set (map (index_nth_leaf n) [i1..<i2])
        = {c. (index_nth_leaf n i1 \<le> c \<and> c < 2 * n) \<or> (n \<le> c \<and> c \<le> index_nth_leaf n (i2 - 1))}"
proof -
  define D where "D = index_deepest_lvl_1st n"
  have D: "n \<le> D" "D < 2 * n" using index_deepest_lvl_1st_bounds [OF n] by (simp_all add: D_def)
  have "1 \<le> 2 * n - 1" using n by simp
  then obtain e where e: "D = 2 ^ e"
    using msb_pow2 [of "2 * n - 1"]
    unfolding D_def index_deepest_lvl_1st_def index_first_of_row_def by blast
  have idx: "index_nth_leaf n k = (if k + D < 2 * n then k + D else k + D - n)" for k
    by (simp add: index_nth_leaf_eq D_def)
  have deep_msb: "msb c = D" if "D \<le> c" "c < 2 * n" for c
    unfolding e by (rule msb_unique) (use that D e in simp_all)
  have upper_msb: "msb c = D div 2" if "n \<le> c" "c < D" for c
  proof -
    have "e \<noteq> 0" using that n e by (cases e) auto
    then obtain e' where e': "e = Suc e'" by (cases e) auto
    have "msb c = 2 ^ e'" by (rule msb_unique) (use that D e e' in simp_all)
    then show ?thesis using e e' by simp
  qed
  consider (deep) "i2 - 1 + D < 2 * n" | (upper) "2 * n \<le> i1 + D"
    | (both) "i1 + D < 2 * n" "2 * n \<le> i2 - 1 + D"
    by linarith
  then show ?thesis
  proof cases
    case deep
    have kD: "k + D < 2 * n" if "k < i2" for k using deep that by linarith
    then have m: "map (index_nth_leaf n) [i1..<i2] = map (\<lambda>k. k + D) [i1..<i2]"
      by (intro map_cong [OF refl]) (simp add: idx)
    have L: "index_nth_leaf n i1 = i1 + D" using kD [of i1] lt by (simp add: idx)
    have R: "index_nth_leaf n (i2 - 1) = i2 - 1 + D" using deep by (simp add: idx)
    have s: "set (map (index_nth_leaf n) [i1..<i2]) = {c. i1 + D \<le> c \<and> c \<le> i2 - 1 + D}"
      unfolding m map_shift_upt using lt by auto
    show ?thesis
    proof (rule one_row)
      show "n \<le> index_nth_leaf n i1" unfolding L using D by simp
      show "index_nth_leaf n i1 \<le> index_nth_leaf n (i2 - 1)" unfolding L R using lt by simp
      show "index_nth_leaf n (i2 - 1) < 2 * n" unfolding R using deep by simp
      show "msb (index_nth_leaf n i1) = msb (index_nth_leaf n (i2 - 1))"
        unfolding L R using deep_msb [of "i1 + D"] deep_msb [of "i2 - 1 + D"] kD [of i1] deep lt by simp
      show "set (map (index_nth_leaf n) [i1..<i2])
        = {c. index_nth_leaf n i1 \<le> c \<and> c \<le> index_nth_leaf n (i2 - 1)}"
        unfolding L R by (rule s)
    qed
  next
    case upper
    have "\<not> k + D < 2 * n \<and> k + D - n = k + (D - n)" if "i1 \<le> k" for k
      using upper that D by linarith
    then have ix: "index_nth_leaf n k = k + (D - n)" if "i1 \<le> k" for k
      using that by (simp add: idx)
    have m: "map (index_nth_leaf n) [i1..<i2] = map (\<lambda>k. k + (D - n)) [i1..<i2]"
      by (intro map_cong [OF refl]) (simp add: ix)
    have L: "index_nth_leaf n i1 = i1 + (D - n)" by (simp add: ix)
    have R: "index_nth_leaf n (i2 - 1) = i2 - 1 + (D - n)" using lt by (simp add: ix)
    have s: "set (map (index_nth_leaf n) [i1..<i2]) = {c. i1 + (D - n) \<le> c \<and> c \<le> i2 - 1 + (D - n)}"
      unfolding m map_shift_upt using lt by auto
    have rng: "n \<le> i1 + (D - n)" "i2 - 1 + (D - n) < D" using upper D lt le by simp_all
    show ?thesis
    proof (rule one_row)
      show "n \<le> index_nth_leaf n i1" unfolding L by (rule rng)
      show "index_nth_leaf n i1 \<le> index_nth_leaf n (i2 - 1)" unfolding L R using lt by simp
      show "index_nth_leaf n (i2 - 1) < 2 * n" unfolding R using rng D by simp
      show "msb (index_nth_leaf n i1) = msb (index_nth_leaf n (i2 - 1))"
        unfolding L R
        using upper_msb [of "i1 + (D - n)"] upper_msb [of "i2 - 1 + (D - n)"] rng lt by simp
      show "set (map (index_nth_leaf n) [i1..<i2])
        = {c. index_nth_leaf n i1 \<le> c \<and> c \<le> index_nth_leaf n (i2 - 1)}"
        unfolding L R by (rule s)
    qed
  next
    case both
    define c where "c = 2 * n - D"
    have c: "i1 < c" "c < i2" "c + D = 2 * n" using both D lt by (simp_all add: c_def)
    have split: "[i1..<i2] = [i1..<c] @ [c..<i2]"
      by (rule upt_split) (use c in simp_all)
    have "k + D < 2 * n" if "k < c" for k using c that by linarith
    then have m1: "map (index_nth_leaf n) [i1..<c] = map (\<lambda>k. k + D) [i1..<c]"
      by (intro map_cong [OF refl]) (simp add: idx)
    have "\<not> k + D < 2 * n \<and> k + D - n = k + (D - n)" if "c \<le> k" for k
      using c that D by linarith
    then have ix: "index_nth_leaf n k = k + (D - n)" if "c \<le> k" for k
      using that by (simp add: idx)
    then have m2: "map (index_nth_leaf n) [c..<i2] = map (\<lambda>k. k + (D - n)) [c..<i2]"
      by (intro map_cong [OF refl]) simp
    have L: "index_nth_leaf n i1 = i1 + D" using both by (simp add: idx)
    have R: "index_nth_leaf n (i2 - 1) = i2 - 1 + (D - n)" using c by (intro ix) simp
    have "set (map (index_nth_leaf n) [i1..<i2])
        = set [i1 + D..<c + D] \<union> set [c + (D - n)..<i2 + (D - n)]"
      unfolding split map_append m1 m2 map_shift_upt by simp
    also have "\<dots> = {q. (i1 + D \<le> q \<and> q < 2 * n) \<or> (n \<le> q \<and> q \<le> i2 - 1 + (D - n))}"
      using c D lt by (auto simp: c_def)
    finally have s: "set (map (index_nth_leaf n) [i1..<i2])
        = {q. (i1 + D \<le> q \<and> q < 2 * n) \<or> (n \<le> q \<and> q \<le> i2 - 1 + (D - n))}" .
    have rng: "n \<le> i2 - 1 + (D - n)" "i2 - 1 + (D - n) < D" using both D lt le by simp_all
    show ?thesis
    proof (rule two_rows [of D])
      show "n \<le> index_nth_leaf n (i2 - 1)" unfolding R by (rule rng)
      show "index_nth_leaf n (i2 - 1) < D" unfolding R by (rule rng)
      show "D \<le> index_nth_leaf n i1" unfolding L by simp
      show "index_nth_leaf n i1 < 2 * n" unfolding L by (rule both)
      show "msb (index_nth_leaf n i1) = D" unfolding L by (rule deep_msb) (use both in simp_all)
      show "msb (index_nth_leaf n (i2 - 1)) = D div 2" unfolding R by (rule upper_msb) (rule rng)+
      show "set (map (index_nth_leaf n) [i1..<i2])
        = {c. (index_nth_leaf n i1 \<le> c \<and> c < 2 * n) \<or> (n \<le> c \<and> c \<le> index_nth_leaf n (i2 - 1))}"
        unfolding L R by (rule s)
    qed
  qed
qed

lemma on_path_child:
  assumes "1 \<le> j"
  shows "on_path j (2 * j)" "on_path j (2 * j + 1)"
proof -
  have "on_path j (2 * j) = (2 * j = j \<or> on_path j (2 * j div 2))"
    by (rule on_path_pos) (use assms in simp)
  then show "on_path j (2 * j)" using on_path_self [OF assms] by simp
  have "on_path j (2 * j + 1) = (2 * j + 1 = j \<or> on_path j ((2 * j + 1) div 2))"
    by (rule on_path_pos) simp
  moreover have "(2 * j + 1) div 2 = j" by simp
  ultimately show "on_path j (2 * j + 1)" using on_path_self [OF assms] by simp
qed

lemma leaves_distinct:
  assumes "1 \<le> n" "i2 \<le> n"
  shows "distinct (map (index_nth_leaf n) [i1..<i2])"
proof -
  have "inj_on (index_nth_leaf n) (set [i1..<i2])"
    using index_nth_leaf_inj [OF assms(1)] assms(2) by (auto simp: inj_on_def)
  then show ?thesis by (simp add: distinct_map)
qed

lemma gutter_retrieve_assign_range_consistent:
  assumes lt: "i1 < i2" and le: "i2 \<le> gsize g" and len: "i2 - i1 \<le> length input"
    and dirty: "\<And>j. 1 \<le> j \<Longrightarrow> j < gsize g \<Longrightarrow>
        (\<And>k. i1 \<le> k \<Longrightarrow> k < i2 \<Longrightarrow> \<not> on_path j (index_nth_leaf (gsize g) k)) \<Longrightarrow> node_ok g j"
  shows "\<exists>g'. gutter_retrieve_assign_range g i1 i2 input = Some (g', drop (i2 - i1) input)
      \<and> gsize g' = gsize g \<and> op g' = op g \<and> consistent g'
      \<and> (\<forall>k. i1 \<le> k \<and> k < i2 \<longrightarrow> heap g' (index_nth_leaf (gsize g) k) = input ! (k - i1))
      \<and> (\<forall>q. gsize g \<le> q \<and> q \<notin> set (map (index_nth_leaf (gsize g)) [i1..<i2])
            \<longrightarrow> heap g' q = heap g q)"
proof -
  define n where "n = gsize g"
  have n: "1 \<le> n" using lt le by (simp add: n_def)
  define cs where "cs = map (index_nth_leaf n) [i1..<i2]"
  have csl: "length cs = i2 - i1" by (simp add: cs_def)
  have csn: "cs ! t = index_nth_leaf n (i1 + t)" if "t < i2 - i1" for t
    using that by (simp add: cs_def)
  have csb: "n \<le> c \<and> c < 2 * n" if "c \<in> set cs" for c
    using that index_nth_leaf_range [OF n] le by (auto simp: cs_def n_def)
  have "\<exists>g'. visit functor_set_from_iter cs (g, input) = Some (g', drop (length cs) input)
      \<and> gsize g' = gsize g \<and> op g' = op g
      \<and> (\<forall>t<length cs. heap g' (cs ! t) = input ! t)
      \<and> (\<forall>q. q \<notin> set cs \<longrightarrow> heap g' q = heap g q)"
  proof (rule visit_set_from_iter)
    show "distinct cs" unfolding cs_def by (rule leaves_distinct [OF n]) (use le in \<open>simp add: n_def\<close>)
    show "length cs \<le> length input" using len by (simp add: csl)
    fix c assume "c \<in> set cs"
    then show "1 \<le> c \<and> c < 2 * gsize g" using csb [of c] n by (simp add: n_def)
  qed
  then obtain g1 where g1: "visit functor_set_from_iter cs (g, input) = Some (g1, drop (i2 - i1) input)"
    "gsize g1 = n" "op g1 = op g"
    "\<And>t. t < i2 - i1 \<Longrightarrow> heap g1 (cs ! t) = input ! t"
    "\<And>q. q \<notin> set cs \<Longrightarrow> heap g1 q = heap g q"
    unfolding csl n_def by blast
  have w: "act_on_leaves_in_order n (index_nth_leaf n i1) (index_nth_leaf n (i2 - 1))
      functor_set_from_iter (g, input) = Some (g1, drop (i2 - i1) input)"
    unfolding act_on_leaves_in_order_visit [OF n lt le [folded n_def]] cs_def [symmetric] by (rule g1(1))
  text \<open>After the writes, a node with no written leaf cell below it is as it was.\<close>
  have ok1: "node_ok g1 j" if j: "1 \<le> j" "j < n" and np: "\<And>c. c \<in> set cs \<Longrightarrow> \<not> on_path j c" for j
  proof -
    have "j \<notin> set cs" using csb [of j] j by auto
    moreover have "2 * j \<notin> set cs"
    proof
      assume "2 * j \<in> set cs"
      then have "\<not> on_path j (2 * j)" by (rule np)
      then show False using on_path_child(1) [OF j(1)] by simp
    qed
    moreover have "2 * j + 1 \<notin> set cs"
    proof
      assume "2 * j + 1 \<in> set cs"
      then have "\<not> on_path j (2 * j + 1)" by (rule np)
      then show False using on_path_child(2) [OF j(1)] by simp
    qed
    ultimately have "node_ok g1 j = node_ok g j"
      using g1(3,5) by (intro node_ok_cong) simp_all
    moreover have "node_ok g j"
    proof (rule dirty)
      show "1 \<le> j" "j < gsize g" using j by (simp_all add: n_def)
      fix k assume "i1 \<le> k" "k < i2"
      then have "index_nth_leaf n k \<in> set cs" by (simp add: cs_def)
      then show "\<not> on_path j (index_nth_leaf (gsize g) k)" using np by (simp add: n_def)
    qed
    ultimately show ?thesis by simp
  qed
  have "\<exists>g'. act_on_all_ancestors_leafup2 n (index_parent (index_nth_leaf n i1))
          (index_parent (index_nth_leaf n (i2 - 1))) functor_update_parent g1 = Some g'
      \<and> gsize g' = gsize g1 \<and> op g' = op g1 \<and> consistent g'
      \<and> (\<forall>q. n \<le> q \<longrightarrow> heap g' q = heap g1 q)"
  proof (rule leaf_range_cells [OF n lt le [folded n_def]], goal_cases)
    case one_row: 1
    show ?thesis
    proof (rule leafup2_same_row [OF one_row(1-4) g1(2)])
      fix j assume j: "1 \<le> j" "j < n"
        and np: "\<And>c. index_nth_leaf n i1 \<le> c \<Longrightarrow> c \<le> index_nth_leaf n (i2 - 1) \<Longrightarrow> \<not> on_path j c"
      show "node_ok g1 j"
        by (rule ok1 [OF j]) (use np one_row(5) in \<open>simp add: cs_def\<close>)
    qed
  next
    case two_rows: (2 D)
    show ?thesis
    proof (rule leafup2_two_rows [OF two_rows(1-6) g1(2)])
      fix j assume j: "1 \<le> j" "j < n"
        and np: "\<And>c. (index_nth_leaf n i1 \<le> c \<and> c < 2 * n)
                  \<or> (n \<le> c \<and> c \<le> index_nth_leaf n (i2 - 1)) \<Longrightarrow> \<not> on_path j c"
      show "node_ok g1 j"
        by (rule ok1 [OF j]) (use np two_rows(7) in \<open>simp add: cs_def\<close>)
    qed
  qed
  then obtain g' where g': "act_on_all_ancestors_leafup2 n (index_parent (index_nth_leaf n i1))
          (index_parent (index_nth_leaf n (i2 - 1))) functor_update_parent g1 = Some g'"
    "gsize g' = n" "op g' = op g" "consistent g'" "\<And>q. n \<le> q \<Longrightarrow> heap g' q = heap g1 q"
    using g1(2,3) by auto
  have call: "gutter_retrieve_assign_range g i1 i2 input = Some (g', drop (i2 - i1) input)"
    using lt w g'(1) by (simp add: gutter_retrieve_assign_range_def n_def [symmetric])
  have written: "heap g' (index_nth_leaf n k) = input ! (k - i1)" if "i1 \<le> k" "k < i2" for k
  proof -
    have "index_nth_leaf n k \<in> set cs" using that by (simp add: cs_def)
    then have "heap g' (index_nth_leaf n k) = heap g1 (index_nth_leaf n k)"
      using g'(5) csb by simp
    also have "\<dots> = heap g1 (cs ! (k - i1))" using csn [of "k - i1"] that by simp
    also have "\<dots> = input ! (k - i1)" by (rule g1(4)) (use that in simp)
    finally show ?thesis .
  qed
  have other: "heap g' q = heap g q" if "n \<le> q" "q \<notin> set cs" for q
    using g'(5) [of q] g1(5) [of q] that by simp
  show ?thesis using call g' written other by (simp add: n_def [symmetric] cs_def [symmetric])
qed

lemma some_leaf_below:
  "1 \<le> j \<Longrightarrow> j < 2 * n \<Longrightarrow> \<exists>q. n \<le> q \<and> q < 2 * n \<and> on_path j q"
proof (induction "2 * n - j" arbitrary: j rule: less_induct)
  case less
  show ?case
  proof (cases "n \<le> j")
    case True
    then show ?thesis using less.prems on_path_self [of j] by auto
  next
    case False
    have "\<exists>q. n \<le> q \<and> q < 2 * n \<and> on_path (2 * j) q"
      by (rule less.hyps) (use False less.prems in simp_all)
    then obtain q where q: "n \<le> q" "q < 2 * n" "on_path (2 * j) q" by blast
    have "on_path j q = (on_path (2 * j) q \<or> on_path (2 * j + 1) q)"
      by (rule on_path_children) (use less.prems False q in simp_all)
    then show ?thesis using q by auto
  qed
qed

lemma gutter_retrieve_of_list_consistent:
  assumes "source \<noteq> []"
  shows "\<exists>g. gutter_retrieve_of_list mem source f = Some g \<and> gsize g = length source \<and> op g = f
      \<and> consistent g
      \<and> (\<forall>k<length source. heap g (index_nth_leaf (length source) k) = source ! k)"
proof -
  define n where "n = length source"
  have n: "1 \<le> n" using assms by (cases source) (simp_all add: n_def)
  define g0 where "g0 = \<lparr>heap = mem, gsize = n, op = f\<rparr>"
  have new: "gutter_base_new mem (length source) f = Some g0"
    using assms by (simp add: gutter_base_new_def g0_def n_def)
  have s0: "gsize g0 = n" "op g0 = f" by (simp_all add: g0_def)
  have "\<exists>g'. gutter_retrieve_assign_range g0 0 n source = Some (g', drop (n - 0) source)
      \<and> gsize g' = gsize g0 \<and> op g' = op g0 \<and> consistent g'
      \<and> (\<forall>k. 0 \<le> k \<and> k < n \<longrightarrow> heap g' (index_nth_leaf (gsize g0) k) = source ! (k - 0))
      \<and> (\<forall>q. gsize g0 \<le> q \<and> q \<notin> set (map (index_nth_leaf (gsize g0)) [0..<n])
            \<longrightarrow> heap g' q = heap g0 q)"
  proof (rule gutter_retrieve_assign_range_consistent)
    show "0 < n" using n by simp
    show "n \<le> gsize g0" by (simp add: s0)
    show "n - 0 \<le> length source" by (simp add: n_def)
    fix j assume j: "1 \<le> j" "j < gsize g0"
      and np: "\<And>k. 0 \<le> k \<Longrightarrow> k < n \<Longrightarrow> \<not> on_path j (index_nth_leaf (gsize g0) k)"
    obtain q where q: "n \<le> q" "q < 2 * n" "on_path j q"
      using some_leaf_below [of j n] j s0 by auto
    obtain k where k: "k < n" "index_nth_leaf n k = q"
      using index_nth_leaf_surj [OF n q(1,2)] by blast
    then have False using np [of k] q(3) s0 by simp
    then show "node_ok g0 j" by simp
  qed
  then show ?thesis using new s0 by (auto simp: gutter_retrieve_of_list_def n_def [symmetric])
qed

text \<open>
  C3: in \<^verbatim>\<open>gutter_retrieve\<close>, every cell with children holds \<^verbatim>\<open>op\<close> of its two children
  after the construction (with \<^verbatim>\<open>op(op(), op()) == op()\<close>, as for a neutral element), after
  the construction from a sequence, and after every call of the point \<^verbatim>\<open>assign\<close>, the
  point \<^verbatim>\<open>apply\<close> and the range \<^verbatim>\<open>assign\<close> on a tree where it held, the indices being
  within the tree and the input as long as the range; each of these calls returns.
\<close>

theorem retrieve_invariant:
  "(combine f (identity f) (identity f) = identity f \<and> 1 \<le> n
      \<longrightarrow> (\<exists>g'. gutter_retrieve_new mem n f = Some g' \<and> consistent g'))
   \<and> (source \<noteq> [] \<longrightarrow> (\<exists>g'. gutter_retrieve_of_list mem source f = Some g' \<and> consistent g'))
   \<and> (consistent g \<and> i < gsize g
      \<longrightarrow> (\<exists>g'. gutter_retrieve_assign g i x = Some g' \<and> consistent g'))
   \<and> (consistent g \<and> i < gsize g
      \<longrightarrow> (\<exists>g'. gutter_retrieve_apply g i x = Some g' \<and> consistent g'))
   \<and> (consistent g \<and> i2 \<le> gsize g \<and> i2 - i1 \<le> length input
      \<longrightarrow> (\<exists>g' input'. gutter_retrieve_assign_range g i1 i2 input = Some (g', input')
            \<and> consistent g'))"
proof (intro conjI impI)
  assume "combine f (identity f) (identity f) = identity f \<and> 1 \<le> n"
  then show "\<exists>g'. gutter_retrieve_new mem n f = Some g' \<and> consistent g'"
    using gutter_retrieve_new_consistent [of f n mem] by blast
next
  assume "source \<noteq> []"
  then show "\<exists>g'. gutter_retrieve_of_list mem source f = Some g' \<and> consistent g'"
    using gutter_retrieve_of_list_consistent [of source mem f] by blast
next
  assume "consistent g \<and> i < gsize g"
  then show "\<exists>g'. gutter_retrieve_assign g i x = Some g' \<and> consistent g'"
    using gutter_retrieve_assign_consistent [of g i x] by blast
next
  assume "consistent g \<and> i < gsize g"
  then show "\<exists>g'. gutter_retrieve_apply g i x = Some g' \<and> consistent g'"
    using gutter_retrieve_apply_consistent [of g i x] by blast
next
  assume a: "consistent g \<and> i2 \<le> gsize g \<and> i2 - i1 \<le> length input"
  show "\<exists>g' input'. gutter_retrieve_assign_range g i1 i2 input = Some (g', input') \<and> consistent g'"
  proof (cases "i1 < i2")
    case True
    have "\<exists>g'. gutter_retrieve_assign_range g i1 i2 input = Some (g', drop (i2 - i1) input)
      \<and> gsize g' = gsize g \<and> op g' = op g \<and> consistent g'
      \<and> (\<forall>k. i1 \<le> k \<and> k < i2 \<longrightarrow> heap g' (index_nth_leaf (gsize g) k) = input ! (k - i1))
      \<and> (\<forall>q. gsize g \<le> q \<and> q \<notin> set (map (index_nth_leaf (gsize g)) [i1..<i2])
            \<longrightarrow> heap g' q = heap g q)"
      by (rule gutter_retrieve_assign_range_consistent) (use a True in \<open>simp_all add: consistent_def\<close>)
    then show ?thesis by blast
  next
    case False
    then have "gutter_retrieve_assign_range g i1 i2 input = Some (g, input)"
      by (simp add: gutter_retrieve_assign_range_def)
    then show ?thesis using a by blast
  qed
qed

theorem retrieve_invariant_witness:
  "combine add (identity add) (identity add) = identity add \<and> (1::nat) \<le> 3
   \<and> [1, 2, 3::int] \<noteq> []
   \<and> consistent \<lparr>heap = (\<lambda>i. 0), gsize = 3, op = add\<rparr>
   \<and> (1::nat) < gsize \<lparr>heap = (\<lambda>i. 0::int), gsize = 3, op = add\<rparr>
   \<and> (3::nat) \<le> gsize \<lparr>heap = (\<lambda>i. 0::int), gsize = 3, op = add\<rparr>
   \<and> (3::nat) - 1 \<le> length [7, 8::int]
   \<and> (\<exists>g'. gutter_retrieve_new (\<lambda>i. 0) 3 add = Some g' \<and> consistent g')
   \<and> (\<exists>g'. gutter_retrieve_of_list (\<lambda>i. 0) [1, 2, 3] add = Some g' \<and> consistent g')
   \<and> (\<exists>g'. gutter_retrieve_assign \<lparr>heap = (\<lambda>i. 0), gsize = 3, op = add\<rparr> 1 5 = Some g'
        \<and> consistent g')
   \<and> (\<exists>g'. gutter_retrieve_apply \<lparr>heap = (\<lambda>i. 0), gsize = 3, op = add\<rparr> 1 5 = Some g'
        \<and> consistent g')
   \<and> (\<exists>g' input'. gutter_retrieve_assign_range \<lparr>heap = (\<lambda>i. 0), gsize = 3, op = add\<rparr> 1 3 [7, 8]
          = Some (g', input') \<and> consistent g')"
proof -
  have c: "consistent \<lparr>heap = (\<lambda>i. 0), gsize = 3, op = add\<rparr>"
    by (simp add: consistent_def node_ok_def add_def)
  have a: "combine add (identity add) (identity add) = identity add" by (simp add: add_def)
  show ?thesis
    using retrieve_invariant [of add 3 "\<lambda>i. 0" "[1, 2, 3]"
        "\<lparr>heap = (\<lambda>i. 0), gsize = 3, op = add\<rparr>" 1 5 3 1 "[7, 8]"] c a
    by simp
qed

lemma foldl_monoid:
  assumes "monoid_op f"
  shows "foldl (combine f) a xs = combine f a (foldl (combine f) (identity f) xs)"
proof (induction xs arbitrary: a)
  case Nil
  show ?case by (simp add: monoid_opD(2) [OF assms])
next
  case (Cons x xs)
  have "foldl (combine f) a (x # xs) = combine f (combine f a x) (foldl (combine f) (identity f) xs)"
    using Cons [of "combine f a x"] by simp
  also have "\<dots> = combine f a (combine f x (foldl (combine f) (identity f) xs))"
    by (rule monoid_opD(1) [OF assms])
  also have "combine f x (foldl (combine f) (identity f) xs) = foldl (combine f) (identity f) (x # xs)"
    using Cons [of x, symmetric] by (simp add: monoid_opD(3) [OF assms])
  finally show ?case .
qed

lemma foldl_monoid_append:
  assumes "monoid_op f"
  shows "foldl (combine f) (identity f) (xs @ ys)
    = combine f (foldl (combine f) (identity f) xs) (foldl (combine f) (identity f) ys)"
  using foldl_monoid [OF assms, of "foldl (combine f) (identity f) xs" ys] by simp

lemma foldl_mset:
  assumes "monoid_op f" "commutative_op f" "mset xs = mset ys"
  shows "foldl (combine f) a xs = foldl (combine f) a ys"
proof -
  have "fold (\<lambda>x r. combine f r x) xs = fold (\<lambda>x r. combine f r x) ys"
  proof (rule fold_multiset_equiv)
    fix x y
    show "(\<lambda>r. combine f r x) \<circ> (\<lambda>r. combine f r y) = (\<lambda>r. combine f r y) \<circ> (\<lambda>r. combine f r x)"
      using combine_right_commute [OF assms(1,2)] by (simp add: fun_eq_iff)
  qed (rule assms(3))
  then show ?thesis by (simp add: foldl_conv_fold)
qed

lemma node_value:
  assumes c: "consistent g" and m: "monoid_op (op g)"
  shows "1 \<le> v \<Longrightarrow> v < 2 * gsize g
    \<Longrightarrow> heap g v = foldl (combine (op g)) (identity (op g)) (map (heap g) (leaf_cells (gsize g) v))"
proof (induction "2 * gsize g - v" arbitrary: v rule: less_induct)
  case less
  show ?case
  proof (cases "v < gsize g")
    case True
    have l: "heap g (2 * v)
      = foldl (combine (op g)) (identity (op g)) (map (heap g) (leaf_cells (gsize g) (2 * v)))"
      by (rule less(1)) (use less(2) True in simp_all)
    have r: "heap g (2 * v + 1)
      = foldl (combine (op g)) (identity (op g)) (map (heap g) (leaf_cells (gsize g) (2 * v + 1)))"
      by (rule less(1)) (use less(2) True in simp_all)
    have lc: "leaf_cells (gsize g) v = leaf_cells (gsize g) (2 * v) @ leaf_cells (gsize g) (2 * v + 1)"
      using less(2) True by (subst leaf_cells.simps) (simp add: index_lbranch_def index_rbranch_def)
    have "heap g v = combine (op g) (heap g (2 * v)) (heap g (2 * v + 1))"
      using c less(2) True by (simp add: consistent_def node_ok_def index_lbranch_def index_rbranch_def)
    also have "\<dots> = foldl (combine (op g)) (identity (op g))
        (map (heap g) (leaf_cells (gsize g) (2 * v)) @ map (heap g) (leaf_cells (gsize g) (2 * v + 1)))"
      unfolding foldl_monoid_append [OF m] using l r by simp
    finally show ?thesis unfolding lc by simp
  next
    case False
    then have "leaf_cells (gsize g) v = [v]"
      using less(2,3) by (subst leaf_cells.simps) simp
    then show ?thesis by (simp add: monoid_opD(3) [OF m])
  qed
qed

lemma visit_functor_get:
  assumes "\<forall>v \<in> set ns. 1 \<le> v \<and> v < 2 * gsize g"
  shows "visit (functor_get g) ns res = Some (foldl (combine (op g)) res (map (heap g) ns))"
  using assms
proof (induction ns arbitrary: res)
  case Nil
  show ?case by simp
next
  case (Cons v ns)
  have "functor_get g v res = Some (combine (op g) res (heap g v))"
    using Cons(2) by (simp add: functor_get_def heap_get_def in_block_def)
  then show ?case using Cons by simp
qed

lemma foldl_nodes:
  assumes c: "consistent g" and m: "monoid_op (op g)"
  shows "(\<forall>v \<in> set ns. 1 \<le> v \<and> v < 2 * gsize g)
    \<Longrightarrow> foldl (combine (op g)) (identity (op g)) (map (heap g) ns)
      = foldl (combine (op g)) (identity (op g))
          (map (heap g) (concat (map (leaf_cells (gsize g)) ns)))"
proof (induction ns)
  case Nil
  show ?case by simp
next
  case (Cons v ns)
  have v: "heap g v
    = foldl (combine (op g)) (identity (op g)) (map (heap g) (leaf_cells (gsize g) v))"
    by (rule node_value [OF c m]) (use Cons(2) in simp_all)
  have ih: "foldl (combine (op g)) (identity (op g)) (map (heap g) ns)
      = foldl (combine (op g)) (identity (op g))
          (map (heap g) (concat (map (leaf_cells (gsize g)) ns)))"
    by (rule Cons(1)) (use Cons(2) in simp)
  have "foldl (combine (op g)) (identity (op g)) (map (heap g) (v # ns))
    = foldl (combine (op g)) (identity (op g)) ([heap g v] @ map (heap g) ns)"
    by simp
  also have "\<dots> = combine (op g) (heap g v)
      (foldl (combine (op g)) (identity (op g)) (map (heap g) ns))"
    unfolding foldl_monoid_append [OF m] by (simp add: monoid_opD(3) [OF m])
  also have "\<dots> = foldl (combine (op g)) (identity (op g))
      (map (heap g) (leaf_cells (gsize g) v) @ map (heap g) (concat (map (leaf_cells (gsize g)) ns)))"
    unfolding foldl_monoid_append [OF m] using v ih by simp
  finally show ?case by simp
qed

lemma accumulate_consistent:
  assumes c: "consistent g" and m: "monoid_op (op g)" and cm: "commutative_op (op g)"
    and le: "i1 \<le> i2" "i2 \<le> gsize g"
  shows "gutter_retrieve_accumulate g i1 i2
    = Some (foldl (combine (op g)) (identity (op g))
        (map (\<lambda>k. heap g (index_nth_leaf (gsize g) k)) [i1..<i2]))"
proof (cases "i1 = i2")
  case True
  then show ?thesis
    by (simp add: gutter_retrieve_accumulate_def act_on_min_covering_ancestors_def)
next
  case False
  then have lt: "i1 < i2" using le by simp
  then have n: "1 \<le> gsize g" using le by simp
  have b: "\<forall>v \<in> set (covering_nodes (gsize g) i1 i2). 1 \<le> v \<and> v < 2 * gsize g"
    using covering_nodes_bounds [OF n lt le(2)] by blast
  have "gutter_retrieve_accumulate g i1 i2
    = visit (functor_get g) (covering_nodes (gsize g) i1 i2) (identity (op g))"
    unfolding gutter_retrieve_accumulate_def
    by (rule act_on_min_covering_ancestors_visit [OF n lt le(2)])
  also have "\<dots> = Some (foldl (combine (op g)) (identity (op g))
      (map (heap g) (covering_nodes (gsize g) i1 i2)))"
    by (rule visit_functor_get [OF b])
  also have "foldl (combine (op g)) (identity (op g)) (map (heap g) (covering_nodes (gsize g) i1 i2))
    = foldl (combine (op g)) (identity (op g))
        (map (heap g) (concat (map (leaf_cells (gsize g)) (covering_nodes (gsize g) i1 i2))))"
    by (rule foldl_nodes [OF c m b])
  also have "\<dots> = foldl (combine (op g)) (identity (op g))
        (map (heap g) (map (index_nth_leaf (gsize g)) [i1..<i2]))"
  proof (rule foldl_mset [OF m cm])
    have "mset (concat (map (leaf_cells (gsize g)) (covering_nodes (gsize g) i1 i2)))
      = mset (map (index_nth_leaf (gsize g)) [i1..<i2])"
      using covering_nodes_cells [OF n lt le(2)] by (simp add: cells_of_def)
    then show "mset (map (heap g) (concat (map (leaf_cells (gsize g)) (covering_nodes (gsize g) i1 i2))))
      = mset (map (heap g) (map (index_nth_leaf (gsize g)) [i1..<i2]))"
      by (metis mset_map)
  qed
  finally show ?thesis by (simp add: comp_def)
qed

lemma index_nth_leaf_ge: "1 \<le> n \<Longrightarrow> n \<le> index_nth_leaf n k"
  using index_deepest_lvl_1st_bounds [of n] unfolding index_nth_leaf_eq by auto

lemma run_call_consistent:
  assumes c: "consistent g" and r: "run_call g call = Some g'"
  shows "consistent g' \<and> gsize g' = gsize g \<and> op g' = op g"
proof -
  obtain k x where call: "call = Assign k x \<or> call = Apply k x" by (cases call) auto
  define l where "l = index_nth_leaf (gsize g) k"
  have ib: "in_block g l"
    using r call unfolding l_def
    by (auto simp: gutter_retrieve_assign_def gutter_retrieve_apply_def heap_set_def heap_get_def
        split: if_splits)
  then have n: "1 \<le> gsize g" by (simp add: in_block_def)
  have l: "gsize g \<le> l" "l < 2 * gsize g"
    using ib index_nth_leaf_ge [OF n, of k] by (simp_all add: in_block_def l_def)
  obtain y where run: "run_call g call
      = act_on_all_ancestors_leafup (index_parent l) functor_update_parent (g\<lparr>heap := (heap g)(l := y)\<rparr>)"
    using call ib unfolding l_def
    by (auto simp: gutter_retrieve_assign_def gutter_retrieve_apply_def heap_set_def heap_get_def)
  have "\<exists>g'. act_on_all_ancestors_leafup (index_parent l) functor_update_parent
          (g\<lparr>heap := (heap g)(l := y)\<rparr>) = Some g'
      \<and> gsize g' = gsize g \<and> op g' = op g \<and> consistent g'
      \<and> heap g' l = y \<and> (\<forall>q. gsize g \<le> q \<and> q \<noteq> l \<longrightarrow> heap g' q = heap g q)"
    by (rule write_leaf_then_update [OF c l]) simp
  then show ?thesis using r run by auto
qed

lemma run_calls_consistent:
  "consistent g \<Longrightarrow> run_calls g calls = Some g'
    \<Longrightarrow> consistent g' \<and> gsize g' = gsize g \<and> op g' = op g"
proof (induction calls arbitrary: g)
  case Nil
  then show ?case by simp
next
  case (Cons call calls)
  from Cons(3) obtain g1 where g1: "run_call g call = Some g1" "run_calls g1 calls = Some g'"
    by (auto split: option.splits)
  have 1: "consistent g1 \<and> gsize g1 = gsize g \<and> op g1 = op g"
    by (rule run_call_consistent [OF Cons(2) g1(1)])
  have "consistent g' \<and> gsize g' = gsize g1 \<and> op g' = op g1"
    by (rule Cons(1)) (use 1 g1(2) in simp_all)
  then show ?case using 1 by simp
qed

text \<open>
  C1: let a \<^verbatim>\<open>gutter_retrieve\<close> be constructed, with fill or from a sequence, over an
  operation that is associative and commutative with \<^verbatim>\<open>op()\<close> neutral, and let point
  \<^verbatim>\<open>assign\<close> and \<^verbatim>\<open>apply\<close> calls follow. Then for \<open>i1 \<le> i2 \<le> size\<close>, \<^verbatim>\<open>accumulate(i1, i2)\<close>
  returns the left fold of \<^verbatim>\<open>op\<close>, from \<^verbatim>\<open>op()\<close>, over the values \<^verbatim>\<open>operator[]\<close> returns for
  \<open>i1, ..., i2 - 1\<close>.
\<close>

theorem accumulate_is_fold:
  assumes "monoid_op f" "commutative_op f"
    and "gutter_retrieve_new mem n f = Some g0 \<or> gutter_retrieve_of_list mem source f = Some g0"
    and "run_calls g0 calls = Some g"
    and "i1 \<le> i2" "i2 \<le> gsize g"
  shows "\<exists>vs. map (gutter_retrieve_subscript g) [i1..<i2] = map Some vs
    \<and> gutter_retrieve_accumulate g i1 i2 = Some (foldl (combine f) (identity f) vs)"
proof -
  have g0: "consistent g0 \<and> op g0 = f"
  proof (rule disjE [OF assms(3)])
    assume a: "gutter_retrieve_new mem n f = Some g0"
    then have "1 \<le> n"
      by (auto simp: gutter_retrieve_new_def gutter_base_new_def split: if_splits)
    then have "\<exists>g. gutter_retrieve_new mem n f = Some g \<and> gsize g = n \<and> op g = f \<and> consistent g
      \<and> (\<forall>j. 1 \<le> j \<and> j < 2 * n \<longrightarrow> heap g j = identity f)"
      by (intro gutter_retrieve_new_consistent monoid_opD(2) [OF assms(1)])
    then show ?thesis using a by auto
  next
    assume a: "gutter_retrieve_of_list mem source f = Some g0"
    then have "source \<noteq> []"
      by (auto simp: gutter_retrieve_of_list_def gutter_retrieve_new_def gutter_base_new_def
          split: if_splits option.splits)
    then have "\<exists>g. gutter_retrieve_of_list mem source f = Some g \<and> gsize g = length source
      \<and> op g = f \<and> consistent g
      \<and> (\<forall>k<length source. heap g (index_nth_leaf (length source) k) = source ! k)"
      by (rule gutter_retrieve_of_list_consistent)
    then show ?thesis using a by auto
  qed
  have g: "consistent g \<and> gsize g = gsize g0 \<and> op g = op g0"
    by (rule run_calls_consistent [OF _ assms(4)]) (use g0 in simp)
  then have opg: "op g = f" and c: "consistent g" using g0 by simp_all
  define vs where "vs = map (\<lambda>k. heap g (index_nth_leaf (gsize g) k)) [i1..<i2]"
  have sub: "gutter_retrieve_subscript g k = Some (heap g (index_nth_leaf (gsize g) k))"
    if "k < gsize g" for k
    using index_nth_leaf_range [of "gsize g" k] that
    by (simp add: gutter_retrieve_subscript_def heap_get_def in_block_def)
  have "map (gutter_retrieve_subscript g) [i1..<i2] = map Some vs"
    using sub assms(6) by (simp add: vs_def)
  moreover have "gutter_retrieve_accumulate g i1 i2 = Some (foldl (combine f) (identity f) vs)"
    using accumulate_consistent [OF c _ _ assms(5,6)] assms(1,2) by (simp add: opg vs_def)
  ultimately show ?thesis by blast
qed

theorem accumulate_is_fold_witness:
  "\<exists>g0 g. monoid_op add \<and> commutative_op add
     \<and> gutter_retrieve_new (\<lambda>i. 0) 3 add = Some g0
     \<and> run_calls g0 [Apply 0 10, Assign 2 4] = Some g
     \<and> (0::nat) \<le> 3 \<and> 3 \<le> gsize g
     \<and> (\<exists>vs. map (gutter_retrieve_subscript g) [0..<3] = map Some vs
          \<and> gutter_retrieve_accumulate g 0 3 = Some (foldl (combine add) (identity add) vs))"
proof -
  have m: "monoid_op add" by (simp add: monoid_op_def add_def)
  have cm: "commutative_op add" by (simp add: commutative_op_def add_def)
  obtain g0 where g0: "gutter_retrieve_new (\<lambda>i. 0) 3 add = Some g0" "gsize g0 = 3" "consistent g0"
    using gutter_retrieve_new_consistent [of add 3 "\<lambda>i. 0"] by (auto simp: add_def)
  obtain g1 where g1: "gutter_retrieve_apply g0 0 10 = Some g1" "gsize g1 = 3" "consistent g1"
    using gutter_retrieve_apply_consistent [of g0 0 10] g0 by auto
  obtain g where g: "gutter_retrieve_assign g1 2 4 = Some g" "gsize g = 3"
    using gutter_retrieve_assign_consistent [of g1 2 4] g1 by auto
  have r: "run_calls g0 [Apply 0 10, Assign 2 4] = Some g" using g1 g by simp
  have "\<exists>vs. map (gutter_retrieve_subscript g) [0..<3] = map Some vs
      \<and> gutter_retrieve_accumulate g 0 3 = Some (foldl (combine add) (identity add) vs)"
    by (rule accumulate_is_fold [OF m cm disjI1 [OF g0(1)] r]) (simp_all add: g)
  moreover have "(0::nat) \<le> 3 \<and> 3 \<le> gsize g" by (simp add: g)
  ultimately show ?thesis using m cm g0(1) r by (intro exI [of _ g0] exI [of _ g] conjI) simp_all
qed

section \<open>Empty ranges\<close>

text \<open>
  C8: for each operation on a range (range apply and range copy of \<^verbatim>\<open>gutter_apply\<close>,
  range assign and accumulate of \<^verbatim>\<open>gutter_retrieve\<close>), a call with \<^verbatim>\<open>i1 == i2 == i\<close>
  returns at once and leaves the block as it is: the object comes back unchanged,
  with the iterator where it was, and the decomposition walk returns its state
  without a call of the function object, whatever the function object is.
\<close>

theorem empty_range_is_noop:
  "gutter_apply_apply_range g i i x = Some g \<and>
   gutter_apply_copy g i i output = Some (g, output) \<and>
   gutter_retrieve_assign_range g i i input = Some (g, input) \<and>
   gutter_retrieve_accumulate g i i = Some (identity (op g)) \<and>
   act_on_min_covering_ancestors (gsize g) i i functor s = Some s"
  by (simp add: gutter_apply_apply_range_def gutter_apply_copy_def
      gutter_retrieve_assign_range_def gutter_retrieve_accumulate_def
      act_on_min_covering_ancestors_def)

text \<open>
  C9: \<^verbatim>\<open>accumulate(i, i)\<close> returns \<^verbatim>\<open>op()\<close>, the neutral element, in every state of the
  tree and for every \<open>i\<close>, and visits no node: the walk it runs returns the state it
  was given even for the function object that fails at every index.
\<close>

theorem accumulate_empty_is_identity:
  "gutter_retrieve_accumulate g i i = Some (identity (op g)) \<and>
   act_on_min_covering_ancestors (gsize g) i i (\<lambda>index res. None) res0 = Some res0"
  by (simp add: gutter_retrieve_accumulate_def act_on_min_covering_ancestors_def)

section \<open>The two scenarios\<close>

text \<open>
  C5: \<^verbatim>\<open>gutter_apply\<close> with \<^verbatim>\<open>n = 5\<close> and the sum, freshly constructed. After
  \<^verbatim>\<open>apply(1, 4, 10)\<close>, \<^verbatim>\<open>operator[]\<close> returns 0, 10, 10, 0 at the indices 0, 1, 3, 4. The
  further \<^verbatim>\<open>assign(2, 5)\<close> walks down to the parent of the leaf cell 5, calls
  \<^verbatim>\<open>functor_consolidate\<close> at the root and has no result, so that there is no value of
  \<^verbatim>\<open>operator[](2)\<close> or \<^verbatim>\<open>operator[](1)\<close> after it.
\<close>

theorem scenario_gutter_apply_5:
  "Option.bind (gutter_apply_new mem 5 add) (\<lambda>g0.
   Option.bind (gutter_apply_apply_range g0 1 4 10) (\<lambda>g1.
     Some (map (gutter_apply_subscript g1) [0, 1, 3, 4],
           Option.is_none (gutter_apply_assign g1 2 5))))
   = Some ([Some 0, Some 10, Some 10, Some 0], True)"
  by code_simp

text \<open>
  C6, as amended: \<^verbatim>\<open>gutter_retrieve\<close> constructed from 1, 2, ..., 8 with the sum.
  \<^verbatim>\<open>accumulate(2, 5)\<close> returns 12; after \<^verbatim>\<open>apply(0, 10)\<close>, \<^verbatim>\<open>operator[](0)\<close> returns 11
  and \<^verbatim>\<open>accumulate(0, 8)\<close> returns 46, the sum 1 + ... + 8 = 36 with the 10 added.
\<close>

theorem scenario_gutter_retrieve_8:
  "Option.bind (gutter_retrieve_of_list mem [1, 2, 3, 4, 5, 6, 7, 8] add) (\<lambda>g0.
   Option.bind (gutter_retrieve_apply g0 0 10) (\<lambda>g1.
     Some (gutter_retrieve_accumulate g0 2 5,
           gutter_retrieve_subscript g1 0,
           gutter_retrieve_accumulate g1 0 8)))
   = Some (Some 12, Some 11, Some 46)"
  by code_simp

text \<open>
  C6 as the spec has it fails in its last number: after \<^verbatim>\<open>apply(0, 10)\<close> the call
  \<^verbatim>\<open>accumulate(0, 8)\<close> does not return 47.
\<close>

theorem scenario_gutter_retrieve_8_not_47:
  "Option.bind (gutter_retrieve_of_list (\<lambda>i. 0) [1, 2, 3, 4, 5, 6, 7, 8] add) (\<lambda>g0.
   Option.bind (gutter_retrieve_apply g0 0 10) (\<lambda>g1.
     gutter_retrieve_accumulate g1 0 8))
   \<noteq> Some 47"
  by code_simp

end
